theory Spec2Isabelle
  imports Main "HOL-Library.AList" "HOL-Library.Multiset" "HOL-Library.Extended_Nat"
begin

section \<open>Python values and exceptions\<close>

text \<open>
  The four programs of \<^verbatim>\<open>labs/\<close> are Python scripts. Python integers are unbounded and
  are modelled by \<^typ>\<open>int\<close>; a \<^verbatim>\<open>dict\<close> keeps its keys in insertion order and is an
  association list with distinct keys (looked up with \<^const>\<open>map_of\<close>, written with
  \<^const>\<open>AList.update\<close>, which overwrites in place or appends at the end, as a dict does);
  a \<^verbatim>\<open>set\<close> is a HOL set. Every exception a line can raise is a value: a function that may
  raise returns \<open>error + 'a\<close>, with \<open>Inl\<close> the exception.
\<close>

datatype error = KeyError | ValueError | IndexError | NetworkXError | TypeError | OverflowError

section \<open>The undirected graph of \<^verbatim>\<open>networkx\<close>\<close>

text \<open>
  \<^verbatim>\<open>nx.Graph\<close> stores a dict of dicts: each node maps to the dict of its neighbours. Both
  levels keep insertion order, and that order is what \<^verbatim>\<open>G.nodes()\<close>,
  \<^verbatim>\<open>G.neighbors(v)\<close> and \<^verbatim>\<open>G.edges()\<close> iterate in. A graph is therefore the list of
  its nodes, each with the list of its neighbours. A second \<^verbatim>\<open>add_edge(u, v)\<close> for a pair
  already joined stores nothing new, and a self-loop \<^verbatim>\<open>add_edge(u, u)\<close> makes \<open>u\<close> its
  own neighbour.
\<close>

type_synonym graph = "(int \<times> int list) list"

definition nodes :: "graph \<Rightarrow> int list" where
  "nodes G = map fst G"

definition add_node :: "int \<Rightarrow> graph \<Rightarrow> graph" where
  "add_node n G = (if n \<in> set (nodes G) then G else G @ [(n, [])])"

definition add_nodes_from :: "int list \<Rightarrow> graph \<Rightarrow> graph" where
  "add_nodes_from ns G = fold add_node ns G"

text \<open>\<^verbatim>\<open>G._adj[u][v] = {}\<close>: a new key goes to the end, a known key keeps its place.\<close>

definition add_nbr :: "int \<Rightarrow> int \<Rightarrow> graph \<Rightarrow> graph" where
  "add_nbr u v G =
     map (\<lambda>(k, ns). if k = u then (k, if v \<in> set ns then ns else ns @ [v]) else (k, ns)) G"

definition add_edge :: "int \<Rightarrow> int \<Rightarrow> graph \<Rightarrow> graph" where
  "add_edge u v G = add_nbr v u (add_nbr u v (add_node v (add_node u G)))"

text \<open>\<^verbatim>\<open>G.neighbors(v)\<close> raises \<^verbatim>\<open>NetworkXError\<close> for a \<open>v\<close> that is not a node.\<close>

definition neighbors :: "graph \<Rightarrow> int \<Rightarrow> error + int list" where
  "neighbors G v = (case map_of G v of None \<Rightarrow> Inl NetworkXError | Some ns \<Rightarrow> Inr ns)"

text \<open>
  \<^verbatim>\<open>G.degree(v)\<close> is \<^verbatim>\<open>len(nbrs) + (v in nbrs)\<close>: a self-loop counts twice. The program
  calls it on the elements of \<^verbatim>\<open>G.nodes()\<close> only (\<open>map_err_degree\<close> below: the \<open>None\<close> branch
  is never taken there). For any other argument \<^verbatim>\<open>networkx\<close> hands back a view object
  instead of a number; that case stands here as an error and plays no part in what follows.
\<close>

definition degree :: "graph \<Rightarrow> int \<Rightarrow> error + nat" where
  "degree G v =
     (case map_of G v of None \<Rightarrow> Inl KeyError
      | Some ns \<Rightarrow> Inr (length ns + (if v \<in> set ns then 1 else 0)))"

text \<open>
  \<^verbatim>\<open>G.edges()\<close> walks the nodes in order and reports \<open>(n, nbr)\<close> for every neighbour
  \<open>nbr\<close> of \<open>n\<close> that has not been walked yet, so each edge is reported once, from its
  endpoint that comes first in node order; a self-loop is reported once.
\<close>

fun edges_from :: "int list \<Rightarrow> graph \<Rightarrow> (int \<times> int) list" where
  "edges_from seen [] = []"
| "edges_from seen ((n, nbrs) # G) =
     map (\<lambda>nbr. (n, nbr)) (filter (\<lambda>nbr. nbr \<notin> set seen) nbrs) @ edges_from (n # seen) G"

definition edges :: "graph \<Rightarrow> (int \<times> int) list" where
  "edges G = edges_from [] G"

text \<open>
  The values an \<^verbatim>\<open>nx.Graph\<close> can take: no node twice, no neighbour twice, every neighbour a
  node, and adjacency symmetric. Every graph built from the empty one by \<^const>\<open>add_node\<close>
  and \<^const>\<open>add_edge\<close> is of this kind (\<open>wf_graph_add_node\<close>, \<open>wf_graph_add_edge\<close> below), and
  so is every graph that a loader returns (\<open>carregar_wf\<close>).
\<close>

definition wf_graph :: "graph \<Rightarrow> bool" where
  "wf_graph G \<longleftrightarrow>
     distinct (nodes G) \<and>
     list_all (\<lambda>(u, ns). distinct ns \<and>
        list_all (\<lambda>v. case map_of G v of None \<Rightarrow> False | Some ms \<Rightarrow> u \<in> set ms) ns) G"

section \<open>\<^verbatim>\<open>labs/max_cut.py\<close>\<close>

text \<open>
  \<^verbatim>\<open>sahni_gonzalez_maxcut\<close>: one pass over \<^verbatim>\<open>sorted(G.nodes())\<close>; \<open>sg_loop\<close> is the
  \<^verbatim>\<open>for\<close> loop, with the sets \<open>A\<close> and \<open>B\<close> as its state.
\<close>

fun sg_loop :: "graph \<Rightarrow> int list \<Rightarrow> int set \<times> int set \<Rightarrow> error + (int set \<times> int set)" where
  "sg_loop G [] (A, B) = Inr (A, B)"
| "sg_loop G (v # vs) (A, B) =
     (case neighbors G v of
        Inl e \<Rightarrow> Inl e
      | Inr ns \<Rightarrow>
          let ganho_A = length (filter (\<lambda>u. u \<in> B) ns);
              ganho_B = length (filter (\<lambda>u. u \<in> A) ns)
          in if ganho_A > ganho_B then sg_loop G vs (insert v A, B)
             else if ganho_B > ganho_A then sg_loop G vs (A, insert v B)
             else if card A \<le> card B then sg_loop G vs (insert v A, B)
             else sg_loop G vs (A, insert v B))"

definition sahni_gonzalez_maxcut :: "graph \<Rightarrow> error + (int set \<times> int set)" where
  "sahni_gonzalez_maxcut G = sg_loop G (sort (nodes G)) ({}, {})"

definition tamanho_corte :: "graph \<Rightarrow> int set \<Rightarrow> int set \<Rightarrow> nat" where
  "tamanho_corte G A B =
     length (filter (\<lambda>(u, v). (u \<in> A \<and> v \<in> B) \<or> (u \<in> B \<and> v \<in> A)) (edges G))"

section \<open>\<^verbatim>\<open>labs/coloracao.py\<close>\<close>

text \<open>
  \<^verbatim>\<open>sorted(xs, key=k, reverse=True)\<close>: the keys are computed first, one call per element and
  in order; the list is then reversed, sorted by a stable ascending sort and reversed again,
  which is how the interpreter keeps a descending sort stable.
\<close>

fun map_err :: "('a \<Rightarrow> error + 'b) \<Rightarrow> 'a list \<Rightarrow> error + 'b list" where
  "map_err f [] = Inr []"
| "map_err f (x # xs) =
     (case f x of
        Inl e \<Rightarrow> Inl e
      | Inr y \<Rightarrow> (case map_err f xs of Inl e \<Rightarrow> Inl e | Inr ys \<Rightarrow> Inr (y # ys)))"

definition sorted_key_reverse :: "('a \<Rightarrow> error + nat) \<Rightarrow> 'a list \<Rightarrow> error + 'a list" where
  "sorted_key_reverse key xs =
     (case map_err key xs of
        Inl e \<Rightarrow> Inl e
      | Inr ks \<Rightarrow> Inr (map snd (rev (sort_key fst (rev (zip ks xs))))))"

text \<open>\<^verbatim>\<open>[v for v in vertices_ordenados if cor[v] == 0]\<close>\<close>

fun nao_coloridos :: "(int \<times> nat) list \<Rightarrow> int list \<Rightarrow> error + int list" where
  "nao_coloridos cor [] = Inr []"
| "nao_coloridos cor (v # vs) =
     (case map_of cor v of
        None \<Rightarrow> Inl KeyError
      | Some c \<Rightarrow>
          (case nao_coloridos cor vs of
             Inl e \<Rightarrow> Inl e
           | Inr r \<Rightarrow> Inr (if c = 0 then v # r else r)))"

text \<open>\<^verbatim>\<open>any(cor[u] == cor_atual for u in G.neighbors(v))\<close>, which stops at the first hit.\<close>

fun conflito :: "(int \<times> nat) list \<Rightarrow> nat \<Rightarrow> int list \<Rightarrow> error + bool" where
  "conflito cor cor_atual [] = Inr False"
| "conflito cor cor_atual (u # us) =
     (case map_of cor u of
        None \<Rightarrow> Inl KeyError
      | Some c \<Rightarrow> if c = cor_atual then Inr True else conflito cor cor_atual us)"

text \<open>The inner \<^verbatim>\<open>for v in nao_coloridos[1:]\<close> loop: it reads the colours as they are now.\<close>

fun pintar :: "graph \<Rightarrow> nat \<Rightarrow> int list \<Rightarrow> (int \<times> nat) list \<Rightarrow> error + (int \<times> nat) list" where
  "pintar G cor_atual [] cor = Inr cor"
| "pintar G cor_atual (v # vs) cor =
     (case neighbors G v of
        Inl e \<Rightarrow> Inl e
      | Inr ns \<Rightarrow>
          (case conflito cor cor_atual ns of
             Inl e \<Rightarrow> Inl e
           | Inr c \<Rightarrow> pintar G cor_atual vs (if c then cor else AList.update v cor_atual cor)))"

text \<open>
  The \<^verbatim>\<open>while True\<close> loop. Nothing in its text bounds it, so it is a partial function:
  \<open>None\<close> is a run that never leaves the loop.
\<close>

partial_function (option) wp_loop ::
  "graph \<Rightarrow> int list \<Rightarrow> (int \<times> nat) list \<Rightarrow> nat \<Rightarrow> (error + (int \<times> nat) list) option" where
  "wp_loop G vertices_ordenados cor cor_atual =
     (case nao_coloridos cor vertices_ordenados of
        Inl e \<Rightarrow> Some (Inl e)
      | Inr [] \<Rightarrow> Some (Inr cor)
      | Inr (v0 # resto) \<Rightarrow>
          (case pintar G cor_atual resto (AList.update v0 cor_atual cor) of
             Inl e \<Rightarrow> Some (Inl e)
           | Inr cor' \<Rightarrow> wp_loop G vertices_ordenados cor' (cor_atual + 1)))"

definition welsh_powell :: "graph \<Rightarrow> (error + (int \<times> nat) list) option" where
  "welsh_powell G =
     (case sorted_key_reverse (degree G) (nodes G) of
        Inl e \<Rightarrow> Some (Inl e)
      | Inr vertices_ordenados \<Rightarrow>
          wp_loop G vertices_ordenados (map (\<lambda>v. (v, 0)) (nodes G)) 1)"

section \<open>\<^verbatim>\<open>labs/dom.py\<close>\<close>

text \<open>
  \<open>dominado\<close> is only ever looked up and written, so it is a map.
  \<^verbatim>\<open>sum(1 for u in G.neighbors(v) if not dominado[u])\<close>:
\<close>

fun viz_nao_dom :: "(int \<rightharpoonup> bool) \<Rightarrow> int list \<Rightarrow> error + nat" where
  "viz_nao_dom dominado [] = Inr 0"
| "viz_nao_dom dominado (u # us) =
     (case dominado u of
        None \<Rightarrow> Inl KeyError
      | Some d \<Rightarrow>
          (case viz_nao_dom dominado us of
             Inl e \<Rightarrow> Inl e
           | Inr k \<Rightarrow> Inr ((if d then 0 else 1) + k)))"

text \<open>The scan \<^verbatim>\<open>for v in sorted(C)\<close> with its running best (\<open>melhor_v\<close>, \<open>melhor_qtd\<close>).\<close>

fun escolher ::
  "graph \<Rightarrow> (int \<rightharpoonup> bool) \<Rightarrow> int list \<Rightarrow> int option \<times> int \<Rightarrow> error + (int option \<times> int)" where
  "escolher G dominado [] (melhor_v, melhor_qtd) = Inr (melhor_v, melhor_qtd)"
| "escolher G dominado (v # vs) (melhor_v, melhor_qtd) =
     (case neighbors G v of
        Inl e \<Rightarrow> Inl e
      | Inr ns \<Rightarrow>
          (case viz_nao_dom dominado ns of
             Inl e \<Rightarrow> Inl e
           | Inr k \<Rightarrow>
               if int k > melhor_qtd then escolher G dominado vs (Some v, int k)
               else escolher G dominado vs (melhor_v, melhor_qtd)))"

text \<open>\<^verbatim>\<open>any(not dominado[u] for u in G.neighbors(v))\<close>\<close>

fun algum_nao_dom :: "(int \<rightharpoonup> bool) \<Rightarrow> int list \<Rightarrow> error + bool" where
  "algum_nao_dom dominado [] = Inr False"
| "algum_nao_dom dominado (u # us) =
     (case dominado u of
        None \<Rightarrow> Inl KeyError
      | Some d \<Rightarrow> if \<not> d then Inr True else algum_nao_dom dominado us)"

text \<open>\<^verbatim>\<open>(not dominado[v]) or any(...)\<close>: the right operand runs only if \<open>v\<close> is dominated.\<close>

definition precisa_inserir :: "graph \<Rightarrow> (int \<rightharpoonup> bool) \<Rightarrow> int \<Rightarrow> error + bool" where
  "precisa_inserir G dominado v =
     (case dominado v of
        None \<Rightarrow> Inl KeyError
      | Some d \<Rightarrow>
          if \<not> d then Inr True
          else (case neighbors G v of Inl e \<Rightarrow> Inl e | Inr ns \<Rightarrow> algum_nao_dom dominado ns))"

text \<open>\<^verbatim>\<open>dominado[v] = True\<close>, then \<^verbatim>\<open>dominado[u] = True\<close> for every neighbour.\<close>

definition marcar :: "(int \<rightharpoonup> bool) \<Rightarrow> int \<Rightarrow> int list \<Rightarrow> (int \<rightharpoonup> bool)" where
  "marcar dominado v ns = fold (\<lambda>u d. d(u \<mapsto> True)) ns (dominado(v \<mapsto> True))"

text \<open>
  The \<^verbatim>\<open>while C\<close> loop. With \<open>melhor_v\<close> still \<^verbatim>\<open>None\<close> after the scan, \<^verbatim>\<open>dominado[v]\<close>
  raises \<^verbatim>\<open>KeyError\<close>; \<^verbatim>\<open>C.remove(v)\<close> raises it for a \<open>v\<close> outside \<open>C\<close>.
\<close>

partial_function (option) dom_loop ::
  "graph \<Rightarrow> int set \<Rightarrow> int set \<Rightarrow> (int \<rightharpoonup> bool) \<Rightarrow> (error + int set) option" where
  "dom_loop G C S dominado =
     (if C = {} then Some (Inr S)
      else
        (case escolher G dominado (sorted_list_of_set C) (None, -1) of
           Inl e \<Rightarrow> Some (Inl e)
         | Inr (melhor_v, melhor_qtd) \<Rightarrow>
             (case melhor_v of
                None \<Rightarrow> Some (Inl KeyError)
              | Some v \<Rightarrow>
                  (case precisa_inserir G dominado v of
                     Inl e \<Rightarrow> Some (Inl e)
                   | Inr inserir \<Rightarrow>
                       if inserir
                       then
                         (case neighbors G v of
                            Inl e \<Rightarrow> Some (Inl e)
                          | Inr ns \<Rightarrow>
                              if v \<in> C
                              then dom_loop G (C - {v}) (insert v S) (marcar dominado v ns)
                              else Some (Inl KeyError))
                       else if v \<in> C then dom_loop G (C - {v}) S dominado
                       else Some (Inl KeyError)))))"

definition conjunto_dominante_aproximado :: "graph \<Rightarrow> (error + int list) option" where
  "conjunto_dominante_aproximado G =
     (case dom_loop G (set (nodes G)) {} (map_of (map (\<lambda>v. (v, False)) (nodes G))) of
        None \<Rightarrow> None
      | Some (Inl e) \<Rightarrow> Some (Inl e)
      | Some (Inr S) \<Rightarrow> Some (Inr (sorted_list_of_set S)))"

section \<open>The three graph loaders\<close>

text \<open>
  Text files are read as ASCII. \<^verbatim>\<open>str.strip()\<close> and \<^verbatim>\<open>str.split()\<close> treat as white space
  the characters for which \<^verbatim>\<open>str.isspace\<close> holds: tab, line feed, vertical tab, form feed,
  carriage return, the four separators \<^verbatim>\<open>0x1c\<close> to \<^verbatim>\<open>0x1f\<close>, and the space.
\<close>

definition isspace :: "char \<Rightarrow> bool" where
  "isspace c \<longleftrightarrow>
     c \<in> set [CHR 0x09, CHR 0x0A, CHR 0x0B, CHR 0x0C, CHR 0x0D,
              CHR 0x1C, CHR 0x1D, CHR 0x1E, CHR 0x1F, CHR 0x20]"

definition strip :: "string \<Rightarrow> string" where
  "strip s = rev (dropWhile isspace (rev (dropWhile isspace s)))"

text \<open>\<^verbatim>\<open>s.split()\<close>: the maximal runs of characters that are not white space.\<close>

fun split_from :: "string \<Rightarrow> string \<Rightarrow> string list" where
  "split_from tok [] = (if tok = [] then [] else [tok])"
| "split_from tok (c # cs) =
     (if isspace c then (if tok = [] then split_from [] cs else tok # split_from [] cs)
      else split_from (tok @ [c]) cs)"

definition split :: "string \<Rightarrow> string list" where
  "split s = split_from [] s"

definition startswith :: "string \<Rightarrow> string \<Rightarrow> bool" where
  "startswith s p \<longleftrightarrow> take (length p) s = p"

text \<open>
  \<^verbatim>\<open>int(tok)\<close> for a token without white space: an optional sign, then decimal digits in
  which single underscores may stand between two digits. Anything else raises
  \<^verbatim>\<open>ValueError\<close> (\<open>None\<close> here). The interpreter's cap on the length of a decimal
  string (4300 digits unless configured otherwise) is left out.
\<close>

definition digit_val :: "char \<Rightarrow> int option" where
  "digit_val c =
     (let n = of_char c :: nat in if 48 \<le> n \<and> n \<le> 57 then Some (int n - 48) else None)"

fun py_digits :: "int \<Rightarrow> string \<Rightarrow> int option" where
  "py_digits acc [] = Some acc"
| "py_digits acc (c # cs) =
     (if c = CHR ''_''
      then (case cs of
              [] \<Rightarrow> None
            | d # ds \<Rightarrow> (case digit_val d of None \<Rightarrow> None | Some x \<Rightarrow> py_digits (10 * acc + x) ds))
      else (case digit_val c of None \<Rightarrow> None | Some x \<Rightarrow> py_digits (10 * acc + x) cs))"

definition py_nat :: "string \<Rightarrow> int option" where
  "py_nat s =
     (case s of
        [] \<Rightarrow> None
      | c # cs \<Rightarrow> (case digit_val c of None \<Rightarrow> None | Some x \<Rightarrow> py_digits x cs))"

definition py_int :: "string \<Rightarrow> int option" where
  "py_int s =
     (case s of
        [] \<Rightarrow> None
      | c # cs \<Rightarrow>
          if c = CHR ''-'' then map_option uminus (py_nat cs)
          else if c = CHR ''+'' then py_nat cs
          else py_nat s)"

text \<open>
  A \<^verbatim>\<open>for linha in f\<close> loop over the lines of the file, with the graph as its state: the
  body either raises or hands the graph on to the next line (\<^verbatim>\<open>continue\<close> hands it on
  unchanged).
\<close>

fun for_linhas :: "(graph \<Rightarrow> string \<Rightarrow> error + graph) \<Rightarrow> graph \<Rightarrow> string list \<Rightarrow> error + graph" where
  "for_linhas corpo G [] = Inr G"
| "for_linhas corpo G (l # ls) =
     (case corpo G l of Inl e \<Rightarrow> Inl e | Inr G' \<Rightarrow> for_linhas corpo G' ls)"

text \<open>
  \<^verbatim>\<open>coloracao.carregar_grafo\<close>. \<^verbatim>\<open>parts[2]\<close> raises \<^verbatim>\<open>IndexError\<close> on a line of fewer than
  three tokens; \<^verbatim>\<open>_, u, v = linha.split()\<close> raises \<^verbatim>\<open>ValueError\<close> unless there are exactly
  three.
\<close>

definition corpo_col :: "graph \<Rightarrow> string \<Rightarrow> error + graph" where
  "corpo_col G l =
     (let linha = strip l in
      if startswith linha ''c'' then Inr G
      else if startswith linha ''p'' then
        (let parts = split linha in
         if length parts \<le> 2 then Inl IndexError
         else (case py_int (parts ! 2) of
                 None \<Rightarrow> Inl ValueError
               | Some n_vertices \<Rightarrow> Inr (add_nodes_from [1..n_vertices] G)))
      else if startswith linha ''e'' then
        (case split linha of
           [t, u, v] \<Rightarrow>
             (case py_int u of
                None \<Rightarrow> Inl ValueError
              | Some u' \<Rightarrow>
                  (case py_int v of
                     None \<Rightarrow> Inl ValueError
                   | Some v' \<Rightarrow> Inr (add_edge u' v' G)))
         | _ \<Rightarrow> Inl ValueError)
      else Inr G)"

definition carregar_grafo_col :: "string list \<Rightarrow> error + graph" where
  "carregar_grafo_col f = for_linhas corpo_col [] f"

text \<open>\<^verbatim>\<open>dom.carregar_grafo\<close>: the same statements as in \<^verbatim>\<open>coloracao.py\<close>.\<close>

definition corpo_dom :: "graph \<Rightarrow> string \<Rightarrow> error + graph" where
  "corpo_dom G l =
     (let linha = strip l in
      if startswith linha ''c'' then Inr G
      else if startswith linha ''p'' then
        (let parts = split linha in
         if length parts \<le> 2 then Inl IndexError
         else (case py_int (parts ! 2) of
                 None \<Rightarrow> Inl ValueError
               | Some n_vertices \<Rightarrow> Inr (add_nodes_from [1..n_vertices] G)))
      else if startswith linha ''e'' then
        (case split linha of
           [t, u, v] \<Rightarrow>
             (case py_int u of
                None \<Rightarrow> Inl ValueError
              | Some u' \<Rightarrow>
                  (case py_int v of
                     None \<Rightarrow> Inl ValueError
                   | Some v' \<Rightarrow> Inr (add_edge u' v' G)))
         | _ \<Rightarrow> Inl ValueError)
      else Inr G)"

definition carregar_grafo_dom :: "string list \<Rightarrow> error + graph" where
  "carregar_grafo_dom f = for_linhas corpo_dom [] f"

text \<open>
  \<^verbatim>\<open>max_cut.carregar_grafo\<close>. Its \<open>p\<close> line is unpacked as \<^verbatim>\<open>_, _, n, _ = linha.split()\<close>,
  which raises \<^verbatim>\<open>ValueError\<close> unless the line has exactly four tokens.
\<close>

definition corpo_mc :: "graph \<Rightarrow> string \<Rightarrow> error + graph" where
  "corpo_mc G l =
     (let linha = strip l in
      if startswith linha ''c'' then Inr G
      else if startswith linha ''p'' then
        (case split linha of
           [t1, t2, n, t4] \<Rightarrow>
             (case py_int n of
                None \<Rightarrow> Inl ValueError
              | Some n' \<Rightarrow> Inr (add_nodes_from [1..n'] G))
         | _ \<Rightarrow> Inl ValueError)
      else if startswith linha ''e'' then
        (case split linha of
           [t, u, v] \<Rightarrow>
             (case py_int u of
                None \<Rightarrow> Inl ValueError
              | Some u' \<Rightarrow>
                  (case py_int v of
                     None \<Rightarrow> Inl ValueError
                   | Some v' \<Rightarrow> Inr (add_edge u' v' G)))
         | _ \<Rightarrow> Inl ValueError)
      else Inr G)"

definition carregar_grafo_mc :: "string list \<Rightarrow> error + graph" where
  "carregar_grafo_mc f = for_linhas corpo_mc [] f"

section \<open>\<^verbatim>\<open>labs/vizinho_mais_proximo.py\<close>\<close>

text \<open>
  This program computes with floats. Their values are left abstract: a type \<open>'a\<close> with
  \<open>0\<close> for \<^verbatim>\<open>0.0\<close>, \<open>+\<close> and \<open><\<close> for the float operations of the same name, and a record of
  the other float primitives the program calls: \<^verbatim>\<open>float("inf")\<close>, \<^verbatim>\<open>float(tok)\<close> (\<open>None\<close>
  is \<^verbatim>\<open>ValueError\<close>), \<^verbatim>\<open>math.hypot(a[0] - b[0], a[1] - b[1])\<close> and
  \<^verbatim>\<open>float(int(d + 0.5))\<close>; the last two may raise. Nothing is assumed about any of them, so
  what is proved holds for IEEE doubles as for any other reading.
\<close>

record 'a float_ops =
  float_inf :: 'a
  float_of_str :: "string \<Rightarrow> 'a option"
  hypot_diff :: "'a \<times> 'a \<Rightarrow> 'a \<times> 'a \<Rightarrow> error + 'a"
  float_int_half :: "'a \<Rightarrow> error + 'a"

text \<open>\<^verbatim>\<open>str.upper()\<close> on ASCII text.\<close>

definition upper :: "string \<Rightarrow> string" where
  "upper s =
     map (\<lambda>c. let n = of_char c :: nat in if 97 \<le> n \<and> n \<le> 122 then char_of (n - 32) else c) s"

text \<open>
  The \<^verbatim>\<open>try\<close> block of \<^verbatim>\<open>ler_tsp\<close>: any exception in it (a missing token, a token that is not
  a number) skips the line.
\<close>

definition linha_coord :: "'a float_ops \<Rightarrow> string list \<Rightarrow> (int \<times> 'a \<times> 'a) option" where
  "linha_coord F parts =
     (if length parts < 3 then None
      else (case py_int (parts ! 0) of
              None \<Rightarrow> None
            | Some idx \<Rightarrow>
                (case float_of_str F (parts ! 1) of
                   None \<Rightarrow> None
                 | Some x \<Rightarrow>
                     (case float_of_str F (parts ! 2) of
                        None \<Rightarrow> None
                      | Some y \<Rightarrow> Some (idx, x, y)))))"

fun ler_loop ::
  "'a float_ops \<Rightarrow> bool \<Rightarrow> (int \<times> 'a \<times> 'a) list \<Rightarrow> string list \<Rightarrow> (int \<times> 'a \<times> 'a) list" where
  "ler_loop F in_section coords [] = coords"
| "ler_loop F in_section coords (l # ls) =
     (let linha = strip l in
      if linha = [] then ler_loop F in_section coords ls
      else if startswith (upper linha) ''EOF'' then coords
      else if startswith (upper linha) ''NODE_COORD_SECTION'' then ler_loop F True coords ls
      else if \<not> in_section then ler_loop F in_section coords ls
      else (case linha_coord F (split linha) of
              None \<Rightarrow> ler_loop F in_section coords ls
            | Some (idx, xy) \<Rightarrow> ler_loop F in_section (AList.update idx xy coords) ls))"

definition ler_tsp :: "'a float_ops \<Rightarrow> string list \<Rightarrow> (int \<times> 'a \<times> 'a) list" where
  "ler_tsp F f = ler_loop F False [] f"

definition euclid_dist :: "'a float_ops \<Rightarrow> 'a \<times> 'a \<Rightarrow> 'a \<times> 'a \<Rightarrow> error + 'a" where
  "euclid_dist F a b = hypot_diff F a b"

text \<open>
  \<^verbatim>\<open>construir_matriz_distancias\<close>: the inner loop fills the row \<^verbatim>\<open>dist[i]\<close>, the outer loop
  stores the rows.
\<close>

fun linha_matriz ::
  "'a::zero float_ops \<Rightarrow> (int \<times> 'a \<times> 'a) list \<Rightarrow> bool \<Rightarrow> int \<Rightarrow> int list \<Rightarrow> (int \<times> 'a) list
     \<Rightarrow> error + (int \<times> 'a) list" where
  "linha_matriz F coords use_round i [] row = Inr row"
| "linha_matriz F coords use_round i (j # js) row =
     (if i = j then linha_matriz F coords use_round i js (AList.update j 0 row)
      else
        (case map_of coords i of
           None \<Rightarrow> Inl KeyError
         | Some a \<Rightarrow>
             (case map_of coords j of
                None \<Rightarrow> Inl KeyError
              | Some b \<Rightarrow>
                  (case euclid_dist F a b of
                     Inl e \<Rightarrow> Inl e
                   | Inr d \<Rightarrow>
                       if use_round
                       then (case float_int_half F d of
                               Inl e \<Rightarrow> Inl e
                             | Inr d' \<Rightarrow>
                                 linha_matriz F coords use_round i js (AList.update j d' row))
                       else linha_matriz F coords use_round i js (AList.update j d row)))))"

fun linhas_matriz ::
  "'a::zero float_ops \<Rightarrow> (int \<times> 'a \<times> 'a) list \<Rightarrow> bool \<Rightarrow> int list \<Rightarrow> int list
     \<Rightarrow> (int \<times> (int \<times> 'a) list) list \<Rightarrow> error + (int \<times> (int \<times> 'a) list) list" where
  "linhas_matriz F coords use_round nodes' [] dist' = Inr dist'"
| "linhas_matriz F coords use_round nodes' (i # is) dist' =
     (case map_of dist' i of
        None \<Rightarrow> Inl KeyError
      | Some row \<Rightarrow>
          (case linha_matriz F coords use_round i nodes' row of
             Inl e \<Rightarrow> Inl e
           | Inr row' \<Rightarrow>
               linhas_matriz F coords use_round nodes' is (AList.update i row' dist')))"

definition construir_matriz_distancias ::
  "'a::zero float_ops \<Rightarrow> (int \<times> 'a \<times> 'a) list \<Rightarrow> bool \<Rightarrow> error + (int \<times> (int \<times> 'a) list) list" where
  "construir_matriz_distancias F coords use_round =
     (let nodes' = sort (map fst coords)
      in linhas_matriz F coords use_round nodes' nodes' (map (\<lambda>u. (u, [])) nodes'))"

text \<open>\<^verbatim>\<open>dist[u][v]\<close>\<close>

definition dist_at :: "(int \<times> (int \<times> 'a) list) list \<Rightarrow> int \<Rightarrow> int \<Rightarrow> error + 'a" where
  "dist_at dist' u v =
     (case map_of dist' u of
        None \<Rightarrow> Inl KeyError
      | Some row \<Rightarrow> (case map_of row v of None \<Rightarrow> Inl KeyError | Some d \<Rightarrow> Inr d))"

text \<open>The scan \<^verbatim>\<open>for v in nodes\<close> of \<^verbatim>\<open>nearest_neighbor_tour\<close>, with its running best.\<close>

fun procurar ::
  "(int \<times> (int \<times> 'a::ord) list) list \<Rightarrow> int set \<Rightarrow> int \<Rightarrow> int list \<Rightarrow> int option \<times> 'a
     \<Rightarrow> error + (int option \<times> 'a)" where
  "procurar dist' visited current [] (best, best_d) = Inr (best, best_d)"
| "procurar dist' visited current (v # vs) (best, best_d) =
     (if v \<in> visited then procurar dist' visited current vs (best, best_d)
      else
        (case dist_at dist' current v of
           Inl e \<Rightarrow> Inl e
         | Inr d \<Rightarrow>
             if d < best_d then procurar dist' visited current vs (Some v, d)
             else procurar dist' visited current vs (best, best_d)))"

text \<open>
  The \<^verbatim>\<open>while len(visited) < n\<close> loop. If the scan leaves \<open>best\<close> at \<^verbatim>\<open>None\<close>, the program
  appends \<^verbatim>\<open>None\<close> to the tour and makes it the current vertex; the next read of
  \<^verbatim>\<open>dist[current]\<close>, in the following scan or at the closing edge, then raises
  \<^verbatim>\<open>KeyError\<close>, since the keys of \<open>dist\<close> are integers. The model raises it at once.
\<close>

partial_function (option) nn_loop ::
  "'a::{plus,ord} \<Rightarrow> (int \<times> (int \<times> 'a) list) list \<Rightarrow> int list \<Rightarrow> int set \<Rightarrow> int list \<Rightarrow> int \<Rightarrow> 'a
     \<Rightarrow> (error + (int list \<times> int \<times> 'a)) option" where
  "nn_loop infty dist' nodes' visited tour current total_cost =
     (if card visited < length nodes'
      then
        (case procurar dist' visited current nodes' (None, infty) of
           Inl e \<Rightarrow> Some (Inl e)
         | Inr (best, best_d) \<Rightarrow>
             (case best of
                None \<Rightarrow> Some (Inl KeyError)
              | Some b \<Rightarrow>
                  nn_loop infty dist' nodes' (insert b visited) (tour @ [b]) b (total_cost + best_d)))
      else Some (Inr (tour, current, total_cost)))"

declare nn_loop.simps [code]

definition nearest_neighbor_tour ::
  "'a::{zero,plus,ord} \<Rightarrow> (int \<times> (int \<times> 'a) list) list \<Rightarrow> int \<Rightarrow> (error + ('a \<times> int list)) option" where
  "nearest_neighbor_tour infty dist' start =
     (case nn_loop infty dist' (map fst dist') {start} [start] start 0 of
        None \<Rightarrow> None
      | Some (Inl e) \<Rightarrow> Some (Inl e)
      | Some (Inr (tour, current, total_cost)) \<Rightarrow>
          (case dist_at dist' current start of
             Inl e \<Rightarrow> Some (Inl e)
           | Inr d \<Rightarrow> Some (Inr (total_cost + d, tour @ [start]))))"

text \<open>
  \<^verbatim>\<open>executar\<close>. The command line is the record \<open>args\<close> (\<^verbatim>\<open>--start\<close>, \<^verbatim>\<open>--try-all\<close>,
  \<^verbatim>\<open>--round\<close>), the file is the list of its lines. What the process does is the list of
  lines it prints on standard output and the way it ends: normally, by \<^verbatim>\<open>sys.exit\<close> with a
  status after a message on standard error, or by an exception nobody catches.
\<close>

record args =
  arg_start :: "int option"
  arg_try_all :: bool
  arg_round :: bool

datatype mensagem = ErroCoordenadas | ErroVerticeInicial int

datatype 'a linha_saida = CustoTotal 'a | TourTitulo | TourOrdem "int list"

datatype fim = Normal | SysExit nat mensagem | Traceback error

text \<open>\<^verbatim>\<open>min(coords.keys())\<close> raises \<^verbatim>\<open>ValueError\<close> on an empty dict.\<close>

definition py_min :: "int list \<Rightarrow> error + int" where
  "py_min ks = (case ks of [] \<Rightarrow> Inl ValueError | k # ks' \<Rightarrow> Inr (fold min ks' k))"

text \<open>Step 4, the loop \<^verbatim>\<open>for s in starts\<close>, with \<open>best_cost\<close> and \<open>best_tour\<close> as its state.\<close>

fun tentar ::
  "'a::{zero,plus,ord} \<Rightarrow> (int \<times> (int \<times> 'a) list) list \<Rightarrow> int list \<Rightarrow> 'a \<times> int list option
     \<Rightarrow> (error + ('a \<times> int list option)) option" where
  "tentar infty dist' [] (best_cost, best_tour) = Some (Inr (best_cost, best_tour))"
| "tentar infty dist' (s # starts) (best_cost, best_tour) =
     (case nearest_neighbor_tour infty dist' s of
        None \<Rightarrow> None
      | Some (Inl e) \<Rightarrow> Some (Inl e)
      | Some (Inr (cost, tour)) \<Rightarrow>
          if cost < best_cost then tentar infty dist' starts (cost, Some tour)
          else tentar infty dist' starts (best_cost, best_tour))"

text \<open>
  Step 5. With \<open>best_tour\<close> still \<^verbatim>\<open>None\<close>, the two header lines are printed and the
  \<^verbatim>\<open>join\<close> over \<^verbatim>\<open>None\<close> raises \<^verbatim>\<open>TypeError\<close>.
\<close>

definition imprimir :: "'a \<Rightarrow> int list option \<Rightarrow> 'a linha_saida list \<times> fim" where
  "imprimir best_cost best_tour =
     (case best_tour of
        None \<Rightarrow> ([CustoTotal best_cost, TourTitulo], Traceback TypeError)
      | Some t \<Rightarrow>
          ([CustoTotal best_cost, TourTitulo,
            TourOrdem (if t \<noteq> [] \<and> hd t = last t then butlast t else t)], Normal))"

definition executar ::
  "'a::{zero,plus,ord} float_ops \<Rightarrow> string list \<Rightarrow> args \<Rightarrow> ('a linha_saida list \<times> fim) option" where
  "executar F f a =
     (let coords = ler_tsp F f in
      if coords = [] then Some ([], SysExit 1 ErroCoordenadas)
      else
        (case construir_matriz_distancias F coords (arg_round a) of
           Inl e \<Rightarrow> Some ([], Traceback e)
         | Inr dist' \<Rightarrow>
             (case (if arg_try_all a then Inr (Inr (sort (map fst coords)))
                    else (case (case arg_start a of
                                  Some k \<Rightarrow> Inr k
                                | None \<Rightarrow> py_min (map fst coords)) of
                            Inl e \<Rightarrow> Inl e
                          | Inr s \<Rightarrow>
                              if s \<notin> set (map fst coords) then Inr (Inl (ErroVerticeInicial s))
                              else Inr (Inr [s]))) of
                Inl e \<Rightarrow> Some ([], Traceback e)
              | Inr (Inl m) \<Rightarrow> Some ([], SysExit 1 m)
              | Inr (Inr starts) \<Rightarrow>
                  (case tentar (float_inf F) dist' starts (float_inf F, None) of
                     None \<Rightarrow> None
                   | Some (Inl e) \<Rightarrow> Some ([], Traceback e)
                   | Some (Inr (best_cost, best_tour)) \<Rightarrow> Some (imprimir best_cost best_tour)))))"

text \<open>
  A small reading of the float primitives, for running the program on the files used as
  examples below: the natural numbers with infinity, for points with unsigned integer
  coordinates that share a horizontal or a vertical line. There the Euclidean distance is
  the difference of the other coordinate, rounding a finite value changes nothing, and
  rounding infinity raises \<^verbatim>\<open>OverflowError\<close>. Other tokens and other pairs of points are
  outside of it.
\<close>

definition floats_on_a_line :: "enat float_ops" where
  "floats_on_a_line =
     \<lparr>float_inf = \<infinity>,
      float_of_str = (\<lambda>tok. if tok = ''inf'' then Some \<infinity>
                            else map_option (\<lambda>i. enat (nat i)) (py_nat tok)),
      hypot_diff = (\<lambda>(ax, ay) (bx, by).
                      if ay = by then Inr ((ax - bx) + (bx - ax))
                      else if ax = bx then Inr ((ay - by) + (by - ay))
                      else Inl ValueError),
      float_int_half = (\<lambda>d. if d = \<infinity> then Inl OverflowError else Inr d)\<rparr>"

section \<open>Notions used in the proofs\<close>

text \<open>
  A colouring in progress is proper so far when no coloured vertex has a neighbour other
  than itself with its colour (\<open>0\<close> is "not coloured").
\<close>

definition proper_so_far :: "graph \<Rightarrow> (int \<rightharpoonup> nat) \<Rightarrow> bool" where
  "proper_so_far G m \<longleftrightarrow>
     (\<forall>u v ns a. map_of G u = Some ns \<and> v \<in> set ns \<and> u \<noteq> v \<and> m u = Some a \<and> a \<noteq> 0
        \<longrightarrow> m v \<noteq> Some a)"

text \<open>
  A vertex is dominated by \<open>S\<close> when it is in \<open>S\<close> or a neighbour of a member of \<open>S\<close>.
\<close>

definition dominated_by :: "graph \<Rightarrow> int set \<Rightarrow> int \<Rightarrow> bool" where
  "dominated_by G S v \<longleftrightarrow> v \<in> S \<or> (\<exists>u \<in> S. \<exists>ns. neighbors G u = Inr ns \<and> v \<in> set ns)"



text \<open>\<open>v\<close> is a neighbour of \<open>u\<close>.\<close>

definition adjacent :: "graph \<Rightarrow> int \<Rightarrow> int \<Rightarrow> bool" where
  "adjacent G u v \<longleftrightarrow> (case map_of G u of None \<Rightarrow> False | Some ns \<Rightarrow> v \<in> set ns)"

text \<open>
  What a line can do to the graph, whatever the graph is: nothing, raise, add the nodes
  \<open>1, \<dots>, n\<close>, or add an edge. The bodies of the three loaders are of this kind.
\<close>

definition corpo_ok :: "(graph \<Rightarrow> string \<Rightarrow> error + graph) \<Rightarrow> bool" where
  "corpo_ok corpo \<longleftrightarrow>
     (\<forall>l. (\<forall>G. corpo G l = Inr G) \<or> (\<exists>e. \<forall>G. corpo G l = Inl e) \<or>
          (\<exists>n. \<forall>G. corpo G l = Inr (add_nodes_from [1..n] G)) \<or>
          (\<exists>u v. \<forall>G. corpo G l = Inr (add_edge u v G)))"

text \<open>\<open>G'\<close> has every node and every adjacency of \<open>G\<close>.\<close>

definition sub_graph :: "graph \<Rightarrow> graph \<Rightarrow> bool" where
  "sub_graph G G' \<longleftrightarrow>
     set (nodes G) \<subseteq> set (nodes G') \<and> (\<forall>a b. adjacent G a b \<longrightarrow> adjacent G' a b)"


section \<open>Properties of the graph model\<close>

lemma node_map_of: "v \<in> set (nodes G) \<longleftrightarrow> map_of G v \<noteq> None"
  by (simp add: nodes_def map_of_eq_None_iff)

lemma neighbors_node: "v \<in> set (nodes G) \<Longrightarrow> \<exists>ns. neighbors G v = Inr ns"
  by (auto simp: neighbors_def node_map_of)

lemma neighbors_Inr: "neighbors G v = Inr ns \<longleftrightarrow> map_of G v = Some ns"
  by (simp add: neighbors_def split: option.splits)

lemma wf_graph_distinct: "wf_graph G \<Longrightarrow> distinct (nodes G)"
  by (simp add: wf_graph_def)

lemma wf_graph_sym:
  assumes "wf_graph G" "map_of G u = Some ns" "v \<in> set ns"
  shows "\<exists>ms. map_of G v = Some ms \<and> u \<in> set ms"
proof -
  from assms(2) have "(u, ns) \<in> set G" by (rule map_of_SomeD)
  with assms(1) have "list_all (\<lambda>v. case map_of G v of None \<Rightarrow> False | Some ms \<Rightarrow> u \<in> set ms) ns"
    by (auto simp: wf_graph_def list_all_iff)
  with assms(3) show ?thesis
    by (auto simp: list_all_iff split: option.splits)
qed

lemma wf_graph_closed:
  assumes "wf_graph G" "map_of G u = Some ns" "v \<in> set ns"
  shows "v \<in> set (nodes G)"
  using wf_graph_sym [OF assms] by (auto simp: node_map_of)

lemma wf_graph_nbrs_distinct:
  assumes "wf_graph G" "map_of G u = Some ns"
  shows "distinct ns"
proof -
  from assms(2) have "(u, ns) \<in> set G" by (rule map_of_SomeD)
  with assms(1) show ?thesis by (auto simp: wf_graph_def list_all_iff)
qed

lemma wf_graph_iff:
  "wf_graph G \<longleftrightarrow>
     distinct (nodes G) \<and>
     (\<forall>u ns. map_of G u = Some ns \<longrightarrow>
        distinct ns \<and> (\<forall>v \<in> set ns. \<exists>ms. map_of G v = Some ms \<and> u \<in> set ms))"
proof
  assume wf: "wf_graph G"
  show "distinct (nodes G) \<and>
     (\<forall>u ns. map_of G u = Some ns \<longrightarrow>
        distinct ns \<and> (\<forall>v \<in> set ns. \<exists>ms. map_of G v = Some ms \<and> u \<in> set ms))"
  proof (intro conjI allI impI ballI)
    show "distinct (nodes G)" by (rule wf_graph_distinct [OF wf])
  next
    fix u ns assume "map_of G u = Some ns"
    then show "distinct ns" by (rule wf_graph_nbrs_distinct [OF wf])
  next
    fix u ns v assume "map_of G u = Some ns" "v \<in> set ns"
    then show "\<exists>ms. map_of G v = Some ms \<and> u \<in> set ms" by (rule wf_graph_sym [OF wf])
  qed
next
  assume r: "distinct (nodes G) \<and>
     (\<forall>u ns. map_of G u = Some ns \<longrightarrow>
        distinct ns \<and> (\<forall>v \<in> set ns. \<exists>ms. map_of G v = Some ms \<and> u \<in> set ms))"
  then have d: "distinct (map fst G)" by (simp add: nodes_def)
  have "case x of (u, ns) \<Rightarrow> distinct ns \<and>
      list_all (\<lambda>v. case map_of G v of None \<Rightarrow> False | Some ms \<Rightarrow> u \<in> set ms) ns"
    if x: "x \<in> set G" for x
  proof -
    obtain u ns where eq: "x = (u, ns)" by (cases x)
    with d x have m: "map_of G u = Some ns" by (simp add: map_of_is_SomeI)
    from r have "\<forall>u ns. map_of G u = Some ns \<longrightarrow>
        distinct ns \<and> (\<forall>v \<in> set ns. \<exists>ms. map_of G v = Some ms \<and> u \<in> set ms)" ..
    then have "map_of G u = Some ns \<longrightarrow>
        distinct ns \<and> (\<forall>v \<in> set ns. \<exists>ms. map_of G v = Some ms \<and> u \<in> set ms)"
      by (elim allE)
    with m have 1: "distinct ns"
      and 2: "\<forall>v \<in> set ns. \<exists>ms. map_of G v = Some ms \<and> u \<in> set ms" by simp_all
    have "list_all (\<lambda>v. case map_of G v of None \<Rightarrow> False | Some ms \<Rightarrow> u \<in> set ms) ns"
      unfolding list_all_iff
    proof
      fix v assume "v \<in> set ns"
      with 2 obtain ms where "map_of G v = Some ms" "u \<in> set ms" by blast
      then show "case map_of G v of None \<Rightarrow> False | Some ms \<Rightarrow> u \<in> set ms" by simp
    qed
    with 1 eq show ?thesis by simp
  qed
  then have "list_all (\<lambda>(u, ns). distinct ns \<and>
      list_all (\<lambda>v. case map_of G v of None \<Rightarrow> False | Some ms \<Rightarrow> u \<in> set ms) ns) G"
    unfolding list_all_iff by blast
  moreover from r have "distinct (nodes G)" ..
  ultimately show "wf_graph G" by (simp add: wf_graph_def)
qed

lemma nodes_add_node:
  "nodes (add_node n G) = (if n \<in> set (nodes G) then nodes G else nodes G @ [n])"
  by (simp add: add_node_def nodes_def)

lemma map_of_add_node:
  "map_of (add_node n G) = (if n \<in> set (nodes G) then map_of G else (map_of G)(n \<mapsto> []))"
proof (cases "n \<in> set (nodes G)")
  case True
  then show ?thesis by (simp add: add_node_def)
next
  case False
  then have "map_of G n = None" by (simp add: node_map_of)
  then have "map_of (G @ [(n, [])]) = (map_of G)(n \<mapsto> [])"
    by (auto simp: map_add_def fun_eq_iff split: option.splits)
  with False show ?thesis by (simp add: add_node_def)
qed

lemma nodes_add_nbr: "nodes (add_nbr u v G) = nodes G"
  by (auto simp: add_nbr_def nodes_def)

lemma map_of_add_nbr:
  "map_of (add_nbr u v G) k =
     (if k = u then map_option (\<lambda>ns. if v \<in> set ns then ns else ns @ [v]) (map_of G u)
      else map_of G k)"
  by (induction G) (auto simp: add_nbr_def)

lemma set_nodes_add_edge: "set (nodes (add_edge u v G)) = insert u (insert v (set (nodes G)))"
  by (auto simp: add_edge_def nodes_add_nbr nodes_add_node)

lemma set_nodes_add_nodes_from: "set (nodes (add_nodes_from ns G)) = set (nodes G) \<union> set ns"
  unfolding add_nodes_from_def
  by (induction ns arbitrary: G) (auto simp: nodes_add_node)

lemma wf_graph_add_node:
  assumes "wf_graph G"
  shows "wf_graph (add_node n G)"
proof (cases "n \<in> set (nodes G)")
  case True
  with assms show ?thesis by (simp add: add_node_def)
next
  case False
  then have none: "map_of G n = None" by (simp add: node_map_of)
  from assms have w: "distinct (nodes G)"
    "\<And>a ns. map_of G a = Some ns \<Longrightarrow> distinct ns"
    "\<And>a ns b. map_of G a = Some ns \<Longrightarrow> b \<in> set ns \<Longrightarrow> \<exists>ms. map_of G b = Some ms \<and> a \<in> set ms"
    unfolding wf_graph_iff by blast+
  have m: "map_of (add_node n G) = (map_of G)(n \<mapsto> [])"
    using False by (simp add: map_of_add_node)
  show ?thesis
    unfolding wf_graph_iff
  proof (intro conjI allI impI ballI)
    show "distinct (nodes (add_node n G))"
      using w(1) False by (simp add: nodes_add_node)
  next
    fix a ns assume "map_of (add_node n G) a = Some ns"
    then show "distinct ns" using w(2) [of a ns] by (cases "a = n") (simp_all add: m)
  next
    fix a ns b
    assume a: "map_of (add_node n G) a = Some ns" and b: "b \<in> set ns"
    then have an: "a \<noteq> n" by (auto simp: m)
    with a have "map_of G a = Some ns" by (simp add: m)
    from w(3) [OF this b] obtain ms where ms: "map_of G b = Some ms" "a \<in> set ms" by blast
    with none have "b \<noteq> n" by auto
    with ms show "\<exists>ms. map_of (add_node n G) b = Some ms \<and> a \<in> set ms"
      by (simp add: m)
  qed
qed

lemma wf_graph_add_nodes_from: "wf_graph G \<Longrightarrow> wf_graph (add_nodes_from ns G)"
  unfolding add_nodes_from_def
  by (induction ns arbitrary: G) (simp_all add: wf_graph_add_node)

lemma adjacent_iff: "adjacent G u v \<longleftrightarrow> (\<exists>ns. map_of G u = Some ns \<and> v \<in> set ns)"
  by (simp add: adjacent_def split: option.splits)

lemma wf_graph_adjacent_iff:
  "wf_graph G \<longleftrightarrow>
     distinct (nodes G) \<and> (\<forall>u ns. map_of G u = Some ns \<longrightarrow> distinct ns) \<and>
     (\<forall>u v. adjacent G u v \<longrightarrow> adjacent G v u)"
  unfolding wf_graph_iff adjacent_iff by blast

lemma adjacent_add_node: "adjacent (add_node n G) a b \<longleftrightarrow> adjacent G a b"
  by (auto simp: adjacent_iff map_of_add_node node_map_of)

lemma adjacent_add_nbr:
  assumes "u \<in> set (nodes G)"
  shows "adjacent (add_nbr u v G) a b \<longleftrightarrow> adjacent G a b \<or> (a = u \<and> b = v)"
proof -
  from assms obtain nu where nu: "map_of G u = Some nu" by (auto simp: node_map_of)
  show ?thesis
  proof (cases "a = u")
    case True
    with nu show ?thesis by (auto simp: adjacent_iff map_of_add_nbr)
  next
    case False
    then show ?thesis by (simp add: adjacent_iff map_of_add_nbr)
  qed
qed

lemma adjacent_add_edge:
  "adjacent (add_edge u v G) a b \<longleftrightarrow> adjacent G a b \<or> (a = u \<and> b = v) \<or> (a = v \<and> b = u)"
proof -
  let ?G1 = "add_node v (add_node u G)"
  have u1: "u \<in> set (nodes ?G1)" and v1: "v \<in> set (nodes (add_nbr u v ?G1))"
    by (simp_all add: nodes_add_node nodes_add_nbr)
  have "adjacent (add_edge u v G) a b \<longleftrightarrow>
      adjacent (add_nbr u v ?G1) a b \<or> (a = v \<and> b = u)"
    unfolding add_edge_def by (rule adjacent_add_nbr [OF v1])
  also have "adjacent (add_nbr u v ?G1) a b \<longleftrightarrow> adjacent ?G1 a b \<or> (a = u \<and> b = v)"
    by (rule adjacent_add_nbr [OF u1])
  also have "adjacent ?G1 a b \<longleftrightarrow> adjacent G a b"
    by (simp add: adjacent_add_node)
  finally show ?thesis by blast
qed

lemma nbrs_distinct_add_nbr:
  assumes "\<forall>a ns. map_of G a = Some ns \<longrightarrow> distinct ns"
  shows "\<forall>a ns. map_of (add_nbr u v G) a = Some ns \<longrightarrow> distinct ns"
proof (intro allI impI)
  fix a ns assume a: "map_of (add_nbr u v G) a = Some ns"
  show "distinct ns"
  proof (cases "a = u")
    case True
    with a obtain nu where nu: "map_of G u = Some nu"
      and ns: "ns = (if v \<in> set nu then nu else nu @ [v])"
      by (auto simp: map_of_add_nbr)
    from assms nu have "distinct nu" by blast
    with ns show ?thesis by simp
  next
    case False
    with a have "map_of G a = Some ns" by (simp add: map_of_add_nbr)
    with assms show ?thesis by blast
  qed
qed

lemma wf_graph_add_edge:
  assumes "wf_graph G"
  shows "wf_graph (add_edge u v G)"
proof -
  let ?G1 = "add_node v (add_node u G)"
  have wf1: "wf_graph ?G1" using assms by (intro wf_graph_add_node)
  then have d1: "\<forall>a ns. map_of ?G1 a = Some ns \<longrightarrow> distinct ns"
    and sym: "\<forall>a b. adjacent G a b \<longrightarrow> adjacent G b a"
    using assms unfolding wf_graph_adjacent_iff by blast+
  have "distinct (nodes (add_edge u v G))"
    using wf1 by (simp add: add_edge_def nodes_add_nbr wf_graph_adjacent_iff)
  moreover have "\<forall>a ns. map_of (add_edge u v G) a = Some ns \<longrightarrow> distinct ns"
    unfolding add_edge_def by (intro nbrs_distinct_add_nbr d1)
  moreover have "\<forall>a b. adjacent (add_edge u v G) a b \<longrightarrow> adjacent (add_edge u v G) b a"
    using sym unfolding adjacent_add_edge by blast
  ultimately show ?thesis unfolding wf_graph_adjacent_iff by blast
qed

lemma wf_graph_empty: "wf_graph []"
  by (simp add: wf_graph_def nodes_def)

section \<open>Max-cut: the partition\<close>

lemma sg_loop_append:
  "sg_loop G (xs @ ys) AB =
     (case sg_loop G xs AB of Inl e \<Rightarrow> Inl e | Inr AB' \<Rightarrow> sg_loop G ys AB')"
proof (induction xs arbitrary: AB)
  case Nil
  show ?case by (cases AB) simp
next
  case (Cons x xs)
  show ?case
    by (cases AB) (simp add: Cons.IH Let_def split: sum.splits)
qed

lemma sg_step:
  assumes "v \<in> set (nodes G)"
  shows "sg_loop G [v] (A, B) = Inr (insert v A, B) \<or> sg_loop G [v] (A, B) = Inr (A, insert v B)"
proof -
  from assms obtain ns where "neighbors G v = Inr ns"
    using neighbors_node by blast
  then show ?thesis by (simp add: Let_def)
qed

lemma sg_loop_grows:
  assumes "set vs \<subseteq> set (nodes G)"
  shows "\<exists>A' B'. sg_loop G vs (A, B) = Inr (A', B') \<and> A \<subseteq> A' \<and> B \<subseteq> B' \<and>
           A' \<union> B' = A \<union> B \<union> set vs \<and>
           (distinct vs \<and> set vs \<inter> (A \<union> B) = {} \<and> A \<inter> B = {} \<longrightarrow> A' \<inter> B' = {})"
  using assms
proof (induction vs arbitrary: A B)
  case Nil
  then show ?case by simp
next
  case (Cons v vs)
  from Cons.prems have v: "v \<in> set (nodes G)" and vs: "set vs \<subseteq> set (nodes G)"
    by simp_all
  have split: "sg_loop G (v # vs) (A, B) =
      (case sg_loop G [v] (A, B) of Inl e \<Rightarrow> Inl e | Inr AB' \<Rightarrow> sg_loop G vs AB')"
    using sg_loop_append [of G "[v]" vs "(A, B)"] by simp
  from sg_step [OF v, of A B] show ?case
  proof
    assume st: "sg_loop G [v] (A, B) = Inr (insert v A, B)"
    from Cons.IH [OF vs, of "insert v A" B] obtain A' B' where
      r: "sg_loop G vs (insert v A, B) = Inr (A', B')" and
      g: "insert v A \<subseteq> A'" "B \<subseteq> B'" "A' \<union> B' = insert v A \<union> B \<union> set vs" and
      d: "distinct vs \<and> set vs \<inter> (insert v A \<union> B) = {} \<and> insert v A \<inter> B = {} \<longrightarrow> A' \<inter> B' = {}"
      by blast
    have "sg_loop G (v # vs) (A, B) = Inr (A', B')"
      using split st r by simp
    moreover have "A \<subseteq> A'" using g by blast
    moreover have "A' \<union> B' = A \<union> B \<union> set (v # vs)" using g by auto
    moreover have "distinct (v # vs) \<and> set (v # vs) \<inter> (A \<union> B) = {} \<and> A \<inter> B = {} \<longrightarrow> A' \<inter> B' = {}"
      using d by auto
    ultimately show ?thesis using g(2) by blast
  next
    assume st: "sg_loop G [v] (A, B) = Inr (A, insert v B)"
    from Cons.IH [OF vs, of A "insert v B"] obtain A' B' where
      r: "sg_loop G vs (A, insert v B) = Inr (A', B')" and
      g: "A \<subseteq> A'" "insert v B \<subseteq> B'" "A' \<union> B' = A \<union> insert v B \<union> set vs" and
      d: "distinct vs \<and> set vs \<inter> (A \<union> insert v B) = {} \<and> A \<inter> insert v B = {} \<longrightarrow> A' \<inter> B' = {}"
      by blast
    have "sg_loop G (v # vs) (A, B) = Inr (A', B')"
      using split st r by simp
    moreover have "B \<subseteq> B'" using g by blast
    moreover have "A' \<union> B' = A \<union> B \<union> set (v # vs)" using g by auto
    moreover have "distinct (v # vs) \<and> set (v # vs) \<inter> (A \<union> B) = {} \<and> A \<inter> B = {} \<longrightarrow> A' \<inter> B' = {}"
      using d by auto
    ultimately show ?thesis using g(1) by blast
  qed
qed

lemma sg_pass_partition:
  assumes "wf_graph G"
  shows "\<exists>A B. sahni_gonzalez_maxcut G = Inr (A, B) \<and> A \<inter> B = {} \<and> A \<union> B = set (nodes G) \<and>
    (\<forall>pre v post. sort (nodes G) = pre @ v # post \<longrightarrow>
       v \<notin> set pre \<and> v \<notin> set post \<and>
       (\<exists>A1 B1 A2 B2. sg_loop G pre ({}, {}) = Inr (A1, B1) \<and> v \<notin> A1 \<union> B1 \<and>
          sg_loop G [v] (A1, B1) = Inr (A2, B2) \<and>
          ((A2 = insert v A1 \<and> B2 = B1) \<or> (A2 = A1 \<and> B2 = insert v B1)) \<and>
          sg_loop G post (A2, B2) = Inr (A, B) \<and> A2 \<subseteq> A \<and> B2 \<subseteq> B))"
proof -
  let ?vs = "sort (nodes G)"
  from assms have dist: "distinct ?vs" by (simp add: wf_graph_def)
  have sub: "set ?vs \<subseteq> set (nodes G)" by simp
  from sg_loop_grows [OF sub, of "{}" "{}"] dist obtain A B where
    r: "sg_loop G ?vs ({}, {}) = Inr (A, B)" and u: "A \<union> B = set (nodes G)" and i: "A \<inter> B = {}"
    by auto
  have steps: "v \<notin> set pre \<and> v \<notin> set post \<and>
       (\<exists>A1 B1 A2 B2. sg_loop G pre ({}, {}) = Inr (A1, B1) \<and> v \<notin> A1 \<union> B1 \<and>
          sg_loop G [v] (A1, B1) = Inr (A2, B2) \<and>
          ((A2 = insert v A1 \<and> B2 = B1) \<or> (A2 = A1 \<and> B2 = insert v B1)) \<and>
          sg_loop G post (A2, B2) = Inr (A, B) \<and> A2 \<subseteq> A \<and> B2 \<subseteq> B)"
    if eq: "?vs = pre @ v # post" for pre v post
  proof -
    from dist eq have d: "distinct (pre @ v # post)" by simp
    from eq have mem: "set pre \<subseteq> set (nodes G)" "v \<in> set (nodes G)" "set post \<subseteq> set (nodes G)"
      using sub by auto
    from sg_loop_grows [OF mem(1), of "{}" "{}"] obtain A1 B1 where
      p: "sg_loop G pre ({}, {}) = Inr (A1, B1)" and pu: "A1 \<union> B1 = set pre"
      by auto
    from sg_step [OF mem(2), of A1 B1] obtain A2 B2 where
      s: "sg_loop G [v] (A1, B1) = Inr (A2, B2)" and
      one: "(A2 = insert v A1 \<and> B2 = B1) \<or> (A2 = A1 \<and> B2 = insert v B1)"
      by blast
    from sg_loop_grows [OF mem(3), of A2 B2] obtain A3 B3 where
      q: "sg_loop G post (A2, B2) = Inr (A3, B3)" and qg: "A2 \<subseteq> A3" "B2 \<subseteq> B3"
      by blast
    have "sg_loop G (pre @ [v] @ post) ({}, {}) = Inr (A3, B3)"
      using p s q by (simp only: sg_loop_append sum.case)
    with r eq have "A3 = A" "B3 = B" by simp_all
    with p pu s one q qg d show ?thesis by auto
  qed
  from r u i steps show ?thesis
    unfolding sahni_gonzalez_maxcut_def by blast
qed

section \<open>Welsh-Powell: the colouring\<close>

lemma conflito_Inr:
  "set us \<subseteq> dom (map_of cor) \<Longrightarrow>
   conflito cor c us = Inr (\<exists>u \<in> set us. map_of cor u = Some c)"
  by (induction us) (auto split: option.splits)

lemma nao_coloridos_Inr:
  "set vs \<subseteq> dom (map_of cor) \<Longrightarrow>
   nao_coloridos cor vs = Inr (filter (\<lambda>v. map_of cor v = Some 0) vs)"
  by (induction vs) (auto split: option.splits)

lemma proper_so_far_update:
  assumes wf: "wf_graph G" and p: "proper_so_far G m"
    and nb: "map_of G v = Some ns" and free: "\<forall>u \<in> set ns. u \<noteq> v \<longrightarrow> m u \<noteq> Some c"
  shows "proper_so_far G (m(v \<mapsto> c))"
  unfolding proper_so_far_def
proof (intro allI impI, elim conjE)
  fix u w ms a
  assume u: "map_of G u = Some ms" and w: "w \<in> set ms" and ne: "u \<noteq> w"
    and a: "(m(v \<mapsto> c)) u = Some a" and a0: "a \<noteq> 0"
  show "(m(v \<mapsto> c)) w \<noteq> Some a"
  proof (cases "u = v")
    case True
    with a have "a = c" by simp
    from True u nb have "ms = ns" by simp
    with w ne True free have "m w \<noteq> Some c" by auto
    with ne True \<open>a = c\<close> show ?thesis by simp
  next
    case False
    with a have mu: "m u = Some a" by simp
    show ?thesis
    proof (cases "w = v")
      case True
      from wf_graph_sym [OF wf u w] True nb have "u \<in> set ns" by auto
      with free False have "m u \<noteq> Some c" by auto
      with mu have "a \<noteq> c" by auto
      with True show ?thesis by simp
    next
      case False
      from p u w ne mu a0 have "m w \<noteq> Some a"
        unfolding proper_so_far_def by blast
      with False show ?thesis by simp
    qed
  qed
qed

lemma pintar_Inr:
  assumes wf: "wf_graph G"
  shows "set vs \<subseteq> set (nodes G) \<Longrightarrow> dom (map_of cor) = set (nodes G) \<Longrightarrow>
    proper_so_far G (map_of cor) \<Longrightarrow>
    \<exists>cor'. pintar G c vs cor = Inr cor' \<and> dom (map_of cor') = set (nodes G) \<and>
       proper_so_far G (map_of cor') \<and>
       (\<forall>v. map_of cor' v = map_of cor v \<or> map_of cor' v = Some c)"
proof (induction vs arbitrary: cor)
  case Nil
  then show ?case by simp
next
  case (Cons v vs)
  from Cons.prems have v: "v \<in> set (nodes G)" and vs: "set vs \<subseteq> set (nodes G)" by simp_all
  from v obtain ns where ns: "map_of G v = Some ns"
    by (auto simp: node_map_of)
  have nsub: "set ns \<subseteq> dom (map_of cor)"
    using wf_graph_closed [OF wf ns] Cons.prems(2) by auto
  let ?b = "\<exists>u \<in> set ns. map_of cor u = Some c"
  let ?cor1 = "if ?b then cor else AList.update v c cor"
  have step: "pintar G c (v # vs) cor = pintar G c vs ?cor1"
    using ns conflito_Inr [OF nsub, of c] by (simp add: neighbors_def)
  have d1: "dom (map_of ?cor1) = set (nodes G)"
    using Cons.prems(2) v by (auto simp: update_conv')
  have p1: "proper_so_far G (map_of ?cor1)"
  proof (cases ?b)
    case True
    with Cons.prems(3) show ?thesis by simp
  next
    case False
    then have "\<forall>u \<in> set ns. u \<noteq> v \<longrightarrow> map_of cor u \<noteq> Some c" by blast
    from proper_so_far_update [OF wf Cons.prems(3) ns this] False
    show ?thesis by (simp add: update_conv')
  qed
  from Cons.IH [OF vs d1 p1] obtain cor' where
    r: "pintar G c vs ?cor1 = Inr cor'" and d: "dom (map_of cor') = set (nodes G)"
    and p: "proper_so_far G (map_of cor')"
    and k: "\<forall>w. map_of cor' w = map_of ?cor1 w \<or> map_of cor' w = Some c"
    by blast
  have "\<forall>w. map_of cor' w = map_of cor w \<or> map_of cor' w = Some c"
  proof
    fix w
    from k have "map_of cor' w = map_of ?cor1 w \<or> map_of cor' w = Some c" by blast
    then show "map_of cor' w = map_of cor w \<or> map_of cor' w = Some c"
      by (cases "w = v") (auto simp: update_conv' split: if_splits)
  qed
  with step r d p show ?case by auto
qed

lemma filter_shrinks:
  assumes "\<And>x. x \<in> set xs \<Longrightarrow> Q x \<Longrightarrow> P x" "x \<in> set xs" "P x" "\<not> Q x"
  shows "length (filter Q xs) < length (filter P xs)"
proof -
  have "filter Q xs = filter Q (filter P xs)"
    using assms(1) by (auto simp: filter_filter intro: filter_cong)
  moreover have "length (filter Q (filter P xs)) < length (filter P xs)"
    using assms(2-4) by (intro length_filter_less [of x]) auto
  ultimately show ?thesis by simp
qed

lemma wp_loop_total:
  assumes wf: "wf_graph G" and vo: "set vo = set (nodes G)"
  shows "1 \<le> c \<Longrightarrow> dom (map_of cor) = set (nodes G) \<Longrightarrow> proper_so_far G (map_of cor) \<Longrightarrow>
    (\<forall>v a. map_of cor v = Some a \<longrightarrow> a < c) \<Longrightarrow>
    \<exists>cor'. wp_loop G vo cor c = Some (Inr cor') \<and> dom (map_of cor') = set (nodes G) \<and>
       proper_so_far G (map_of cor') \<and>
       (\<forall>v \<in> set (nodes G). \<exists>a. map_of cor' v = Some a \<and> 0 < a)"
proof (induction "length (filter (\<lambda>v. map_of cor v = Some 0) vo)" arbitrary: cor c rule: less_induct)
  case less
  let ?un = "filter (\<lambda>v. map_of cor v = Some 0) vo"
  have nc: "nao_coloridos cor vo = Inr ?un"
    using nao_coloridos_Inr [of vo cor] vo less.prems(2) by simp
  show ?case
  proof (cases ?un)
    case Nil
    have all: "\<forall>v \<in> set (nodes G). \<exists>a. map_of cor v = Some a \<and> 0 < a"
    proof
      fix v assume v: "v \<in> set (nodes G)"
      with less.prems(2) obtain a where a: "map_of cor v = Some a" by blast
      from v vo have "v \<in> set vo" by simp
      with Nil have "map_of cor v \<noteq> Some 0"
        by (auto simp: filter_empty_conv)
      with a show "\<exists>a. map_of cor v = Some a \<and> 0 < a" by auto
    qed
    have "wp_loop G vo cor c = Some (Inr cor)"
      using nc Nil by (subst wp_loop.simps) simp
    with less.prems all show ?thesis by blast
  next
    case (Cons v0 resto)
    then have "v0 \<in> set ?un" and rsub: "set resto \<subseteq> set ?un"
      by (simp_all add: subset_iff)
    then have v0: "v0 \<in> set vo" "map_of cor v0 = Some 0" by simp_all
    from rsub vo have resto: "set resto \<subseteq> set (nodes G)" by auto
    from v0 vo have v0n: "v0 \<in> set (nodes G)" by simp
    let ?cor1 = "AList.update v0 c cor"
    have d1: "dom (map_of ?cor1) = set (nodes G)"
      using less.prems(2) v0n by (auto simp: update_conv')
    from v0n obtain ns where ns: "map_of G v0 = Some ns"
      by (auto simp: node_map_of)
    have "\<forall>u \<in> set ns. u \<noteq> v0 \<longrightarrow> map_of cor u \<noteq> Some c"
      using less.prems(4) by auto
    from proper_so_far_update [OF wf less.prems(3) ns this]
    have p1: "proper_so_far G (map_of ?cor1)" by (simp add: update_conv')
    from pintar_Inr [OF wf resto d1 p1, of c] obtain cor' where
      r: "pintar G c resto ?cor1 = Inr cor'" and d: "dom (map_of cor') = set (nodes G)"
      and p: "proper_so_far G (map_of cor')"
      and k: "\<forall>w. map_of cor' w = map_of ?cor1 w \<or> map_of cor' w = Some c"
      by blast
    have keep: "map_of cor' w = map_of cor w \<or> map_of cor' w = Some c" for w
      using k [rule_format, of w] by (cases "w = v0") (auto simp: update_conv')
    have bound: "\<forall>v a. map_of cor' v = Some a \<longrightarrow> a < c + 1"
    proof (intro allI impI)
      fix v a assume "map_of cor' v = Some a"
      with keep [of v] less.prems(4) show "a < c + 1" by (auto simp: less_Suc_eq)
    qed
    have v0c: "map_of cor' v0 = Some c"
      using k [rule_format, of v0] by (auto simp: update_conv')
    have "length (filter (\<lambda>v. map_of cor' v = Some 0) vo) < length ?un"
    proof (rule filter_shrinks [of vo _ _ v0])
      fix x assume "x \<in> set vo" "map_of cor' x = Some 0"
      with keep [of x] less.prems(1) show "map_of cor x = Some 0" by auto
    next
      show "v0 \<in> set vo" by (rule v0(1))
      show "map_of cor v0 = Some 0" by (rule v0(2))
      from v0c less.prems(1) show "map_of cor' v0 \<noteq> Some 0" by simp
    qed
    from less.hyps [OF this _ d p bound] obtain cor'' where
      fin: "wp_loop G vo cor' (c + 1) = Some (Inr cor'')" "dom (map_of cor'') = set (nodes G)"
        "proper_so_far G (map_of cor'')"
        "\<forall>v \<in> set (nodes G). \<exists>a. map_of cor'' v = Some a \<and> 0 < a"
      by auto
    have "wp_loop G vo cor c = wp_loop G vo cor' (c + 1)"
      using nc Cons r by (subst wp_loop.simps) simp
    with fin show ?thesis by auto
  qed
qed

lemma map_err_degree:
  "set vs \<subseteq> set (nodes G) \<Longrightarrow> \<exists>ks. map_err (degree G) vs = Inr ks \<and> length ks = length vs"
proof (induction vs)
  case Nil
  then show ?case by simp
next
  case (Cons v vs)
  then obtain ks where "map_err (degree G) vs = Inr ks" "length ks = length vs" by auto
  moreover from Cons.prems obtain ns where "map_of G v = Some ns"
    by (auto simp: node_map_of)
  then obtain d where "degree G v = Inr d" by (simp add: degree_def)
  ultimately show ?case by simp
qed

lemma vertices_ordenados_Inr:
  "\<exists>vo. sorted_key_reverse (degree G) (nodes G) = Inr vo \<and> mset vo = mset (nodes G)"
proof -
  from map_err_degree [of "nodes G" G] obtain ks where
    ks: "map_err (degree G) (nodes G) = Inr ks" "length ks = length (nodes G)" by auto
  let ?vo = "map snd (rev (sort_key fst (rev (zip ks (nodes G)))))"
  have "mset ?vo = mset (map snd (zip ks (nodes G)))"
    by simp
  also have "\<dots> = mset (nodes G)" using ks(2) by simp
  finally show ?thesis using ks(1) by (simp add: sorted_key_reverse_def)
qed

lemma edges_from_adj:
  "(u, v) \<in> set (edges_from seen G) \<Longrightarrow> \<exists>ns. (u, ns) \<in> set G \<and> v \<in> set ns"
  by (induction seen G rule: edges_from.induct) auto

lemma edges_adj:
  assumes "wf_graph G" "(u, v) \<in> set (edges G)"
  shows "\<exists>ns. map_of G u = Some ns \<and> v \<in> set ns"
proof -
  from assms(2) obtain ns where "(u, ns) \<in> set G" "v \<in> set ns"
    unfolding edges_def by (blast dest: edges_from_adj)
  moreover from assms(1) have "distinct (map fst G)"
    by (simp add: wf_graph_def nodes_def)
  ultimately show ?thesis by (auto intro: map_of_is_SomeI)
qed

lemma welsh_powell_returns:
  assumes wf: "wf_graph G"
  shows "\<exists>cor. welsh_powell G = Some (Inr cor) \<and> fst ` set cor = set (nodes G) \<and>
    (\<forall>v \<in> set (nodes G). \<exists>c. map_of cor v = Some c \<and> 0 < c) \<and>
    (\<forall>(u, v) \<in> set (edges G). u \<noteq> v \<longrightarrow> map_of cor u \<noteq> map_of cor v)"
proof -
  from vertices_ordenados_Inr [of G] obtain vo where
    vo: "sorted_key_reverse (degree G) (nodes G) = Inr vo" "mset vo = mset (nodes G)" by blast
  from vo(2) have set_vo: "set vo = set (nodes G)" by (rule mset_eq_setD)
  let ?cor0 = "map (\<lambda>v. (v, 0::nat)) (nodes G)"
  have m0: "map_of ?cor0 v = (if v \<in> set (nodes G) then Some 0 else None)" for v
    by (induction "nodes G") (auto simp: map_of_map_restrict restrict_map_def)
  have d0: "dom (map_of ?cor0) = set (nodes G)"
    by (auto simp: m0 dom_def)
  have p0: "proper_so_far G (map_of ?cor0)"
    by (auto simp: proper_so_far_def m0 split: if_splits)
  have b0: "\<forall>v a. map_of ?cor0 v = Some a \<longrightarrow> a < 1"
    by (auto simp: m0 split: if_splits)
  from wp_loop_total [OF wf set_vo _ d0 p0 b0] obtain cor where
    r: "wp_loop G vo ?cor0 1 = Some (Inr cor)" and d: "dom (map_of cor) = set (nodes G)"
    and p: "proper_so_far G (map_of cor)"
    and pos: "\<forall>v \<in> set (nodes G). \<exists>a. map_of cor v = Some a \<and> 0 < a"
    by auto
  have res: "welsh_powell G = Some (Inr cor)"
    using vo(1) r by (simp add: welsh_powell_def)
  have keys: "fst ` set cor = set (nodes G)"
    using d by (simp add: dom_map_of_conv_image_fst)
  have edges: "\<forall>(u, v) \<in> set (edges G). u \<noteq> v \<longrightarrow> map_of cor u \<noteq> map_of cor v"
  proof (clarify)
    fix u v assume e: "(u, v) \<in> set (edges G)" and ne: "u \<noteq> v"
      and eq: "map_of cor u = map_of cor v"
    from edges_adj [OF wf e] obtain ns where ns: "map_of G u = Some ns" "v \<in> set ns" by blast
    then have "u \<in> set (nodes G)" by (auto simp: node_map_of)
    with pos obtain a where a: "map_of cor u = Some a" "0 < a" by blast
    with p ns ne have "map_of cor v \<noteq> Some a"
      unfolding proper_so_far_def by blast
    with a eq show False by simp
  qed
  from res keys pos edges show ?thesis by blast
qed

section \<open>Dominating set: coverage\<close>

lemma viz_nao_dom_Inr:
  "set us \<subseteq> dom d \<Longrightarrow> \<exists>k. viz_nao_dom d us = Inr k"
  by (induction us) auto

lemma algum_nao_dom_Inr:
  "set us \<subseteq> dom d \<Longrightarrow> algum_nao_dom d us = Inr (\<exists>u \<in> set us. d u = Some False)"
  by (induction us) auto

lemma precisa_inserir_Inr:
  assumes "map_of G v = Some ns" "v \<in> dom d" "set ns \<subseteq> dom d"
  shows "precisa_inserir G d v = Inr (d v = Some False \<or> (\<exists>u \<in> set ns. d u = Some False))"
  using assms algum_nao_dom_Inr [OF assms(3)]
  by (auto simp: precisa_inserir_def neighbors_def)

lemma marcar_apply:
  "marcar d v ns w = (if w = v \<or> w \<in> set ns then Some True else d w)"
proof -
  have "fold (\<lambda>u d. d(u \<mapsto> True)) ns m w = (if w \<in> set ns then Some True else m w)" for m
    by (induction ns arbitrary: m) auto
  then show ?thesis by (simp add: marcar_def)
qed

lemma escolher_Inr:
  assumes wf: "wf_graph G" and d: "dom d = set (nodes G)"
  shows "set vs \<subseteq> set (nodes G) \<Longrightarrow>
    \<exists>mv mq. escolher G d vs (mv0, mq0) = Inr (mv, mq) \<and> (mv = mv0 \<or> mv \<in> Some ` set vs)"
proof (induction vs arbitrary: mv0 mq0)
  case Nil
  then show ?case by simp
next
  case (Cons v vs)
  from Cons.prems obtain ns where ns: "map_of G v = Some ns"
    by (auto simp: node_map_of)
  have "set ns \<subseteq> dom d"
    using wf_graph_closed [OF wf ns] d by auto
  then obtain k where k: "viz_nao_dom d ns = Inr k"
    using viz_nao_dom_Inr by blast
  from Cons.prems have vs: "set vs \<subseteq> set (nodes G)" by simp
  show ?case
  proof (cases "int k > mq0")
    case True
    from Cons.IH [OF vs, of "Some v" "int k"] obtain mv mq where
      "escolher G d vs (Some v, int k) = Inr (mv, mq)" "mv = Some v \<or> mv \<in> Some ` set vs"
      by blast
    with ns k True show ?thesis by (auto simp: neighbors_def)
  next
    case False
    from Cons.IH [OF vs, of mv0 mq0] obtain mv mq where
      "escolher G d vs (mv0, mq0) = Inr (mv, mq)" "mv = mv0 \<or> mv \<in> Some ` set vs"
      by blast
    with ns k False show ?thesis by (auto simp: neighbors_def)
  qed
qed

lemma escolher_first:
  assumes wf: "wf_graph G" and d: "dom d = set (nodes G)"
    and vs: "set vs \<subseteq> set (nodes G)" "vs \<noteq> []"
  shows "\<exists>v mq. escolher G d vs (None, -1) = Inr (Some v, mq) \<and> v \<in> set vs"
proof -
  from vs(2) obtain v rest where vs_eq: "vs = v # rest" by (cases vs) auto
  with vs(1) obtain ns where ns: "map_of G v = Some ns" and rest: "set rest \<subseteq> set (nodes G)"
    by (auto simp: node_map_of)
  have "set ns \<subseteq> dom d"
    using wf_graph_closed [OF wf ns] d by auto
  then obtain k where k: "viz_nao_dom d ns = Inr k"
    using viz_nao_dom_Inr by blast
  from escolher_Inr [OF wf d rest, of "Some v" "int k"] obtain mv mq where
    "escolher G d rest (Some v, int k) = Inr (mv, mq)" "mv = Some v \<or> mv \<in> Some ` set rest"
    by blast
  with ns k vs_eq show ?thesis by (auto simp: neighbors_def)
qed

lemma dominated_by_mono: "dominated_by G S v \<Longrightarrow> dominated_by G (insert u S) v"
  by (auto simp: dominated_by_def)

lemma dom_loop_total:
  assumes wf: "wf_graph G"
  shows "finite C \<Longrightarrow> C \<subseteq> set (nodes G) \<Longrightarrow> S \<subseteq> set (nodes G) \<Longrightarrow> dom d = set (nodes G) \<Longrightarrow>
    (\<forall>v \<in> set (nodes G). v \<notin> C \<longrightarrow> d v = Some True) \<Longrightarrow>
    (\<forall>v. d v = Some True \<longrightarrow> dominated_by G S v) \<Longrightarrow>
    \<exists>S'. dom_loop G C S d = Some (Inr S') \<and> S' \<subseteq> set (nodes G) \<and>
      (\<forall>v \<in> set (nodes G). dominated_by G S' v)"
proof (induction "card C" arbitrary: C S d rule: less_induct)
  case less
  show ?case
  proof (cases "C = {}")
    case True
    with less.prems have "\<forall>v \<in> set (nodes G). dominated_by G S v" by auto
    moreover have "dom_loop G C S d = Some (Inr S)"
      using True by (subst dom_loop.simps) simp
    ultimately show ?thesis using less.prems(3) by blast
  next
    case False
    let ?vs = "sorted_list_of_set C"
    have vs: "set ?vs \<subseteq> set (nodes G)" "?vs \<noteq> []"
      using less.prems(1,2) False by auto
    from escolher_first [OF wf less.prems(4) vs] obtain v mq where
      e: "escolher G d ?vs (None, -1) = Inr (Some v, mq)" and "v \<in> set ?vs" by blast
    then have vC: "v \<in> C" using less.prems(1) by simp
    with less.prems(2) have vn: "v \<in> set (nodes G)" by auto
    then obtain ns where ns: "map_of G v = Some ns" by (auto simp: node_map_of)
    have nsub: "set ns \<subseteq> set (nodes G)"
      using wf_graph_closed [OF wf ns] by auto
    let ?p = "d v = Some False \<or> (\<exists>u \<in> set ns. d u = Some False)"
    have p: "precisa_inserir G d v = Inr ?p"
      using precisa_inserir_Inr [OF ns] vn nsub less.prems(4) by auto
    have card: "card (C - {v}) < card C"
      using less.prems(1) vC by (rule card_Diff1_less)
    have fin: "finite (C - {v})" "C - {v} \<subseteq> set (nodes G)"
      using less.prems(1,2) by auto
    show ?thesis
    proof (cases ?p)
      case True
      let ?d = "marcar d v ns"
      have unfold: "dom_loop G C S d = dom_loop G (C - {v}) (insert v S) ?d"
        using False e p True ns vC by (subst dom_loop.simps) (simp add: neighbors_def)
      have S': "insert v S \<subseteq> set (nodes G)" using vn less.prems(3) by simp
      have d': "dom ?d = set (nodes G)"
        using less.prems(4) vn nsub by (auto simp: marcar_apply dom_def)
      have i1: "\<forall>w \<in> set (nodes G). w \<notin> C - {v} \<longrightarrow> ?d w = Some True"
        using less.prems(5) by (auto simp: marcar_apply)
      have i2: "\<forall>w. ?d w = Some True \<longrightarrow> dominated_by G (insert v S) w"
      proof (intro allI impI)
        fix w assume w: "?d w = Some True"
        show "dominated_by G (insert v S) w"
        proof (cases "w = v \<or> w \<in> set ns")
          case True
          with ns show ?thesis by (auto simp: dominated_by_def neighbors_def)
        next
          case False
          with w have "d w = Some True" by (simp add: marcar_apply)
          with less.prems(6) show ?thesis by (auto intro: dominated_by_mono)
        qed
      qed
      from less.hyps [OF card fin S' d' i1 i2] unfold show ?thesis by simp
    next
      case np: False
      have unfold: "dom_loop G C S d = dom_loop G (C - {v}) S d"
        using False e p np vC by (subst dom_loop.simps) simp
      from vn less.prems(4) obtain b where "d v = Some b" by blast
      with np have dv: "d v = Some True" by (cases b) auto
      have i1: "\<forall>w \<in> set (nodes G). w \<notin> C - {v} \<longrightarrow> d w = Some True"
        using less.prems(5) dv by auto
      from less.hyps [OF card fin less.prems(3,4) i1 less.prems(6)] unfold
      show ?thesis by simp
    qed
  qed
qed

lemma conjunto_dominante_returns:
  assumes wf: "wf_graph G"
  shows "\<exists>S. conjunto_dominante_aproximado G = Some (Inr S) \<and> sorted S \<and> distinct S \<and>
    set S \<subseteq> set (nodes G) \<and>
    (\<forall>v \<in> set (nodes G).
       v \<in> set S \<or> (\<exists>u \<in> set S. \<exists>ns. neighbors G u = Inr ns \<and> v \<in> set ns))"
proof -
  let ?d0 = "map_of (map (\<lambda>v. (v, False)) (nodes G))"
  have m0: "?d0 v = (if v \<in> set (nodes G) then Some False else None)" for v
    by (induction "nodes G") (auto simp: map_of_map_restrict restrict_map_def)
  have d0: "dom ?d0 = set (nodes G)" by (auto simp: m0 dom_def)
  have i1: "\<forall>v \<in> set (nodes G). v \<notin> set (nodes G) \<longrightarrow> ?d0 v = Some True" by simp
  have i2: "\<forall>v. ?d0 v = Some True \<longrightarrow> dominated_by G {} v" by (simp add: m0)
  from dom_loop_total [OF wf _ _ _ d0 i1 i2] obtain S where
    r: "dom_loop G (set (nodes G)) {} ?d0 = Some (Inr S)" and sub: "S \<subseteq> set (nodes G)"
    and cov: "\<forall>v \<in> set (nodes G). dominated_by G S v"
    by auto
  from sub have fin: "finite S" by (rule finite_subset) simp
  have "conjunto_dominante_aproximado G = Some (Inr (sorted_list_of_set S))"
    using r by (simp add: conjunto_dominante_aproximado_def)
  moreover have "set (sorted_list_of_set S) = S" using fin by simp
  ultimately show ?thesis using sub cov by (auto simp: dominated_by_def)
qed

section \<open>Nearest neighbour: the tour\<close>







section \<open>The loaders: what a line does\<close>

lemma corpo_col_e:
  assumes "\<not> startswith (strip l) ''c''" "\<not> startswith (strip l) ''p''"
    "startswith (strip l) ''e''" "split (strip l) = [t, a, b]"
  shows "corpo_col G l =
    (case py_int a of None \<Rightarrow> Inl ValueError
     | Some u \<Rightarrow> (case py_int b of None \<Rightarrow> Inl ValueError | Some v \<Rightarrow> Inr (add_edge u v G)))"
  using assms by (simp add: corpo_col_def)

lemma corpo_col_p:
  assumes "\<not> startswith (strip l) ''c''" "startswith (strip l) ''p''"
  shows "corpo_col G l =
    (if length (split (strip l)) \<le> 2 then Inl IndexError
     else (case py_int (split (strip l) ! 2) of None \<Rightarrow> Inl ValueError
           | Some n \<Rightarrow> Inr (add_nodes_from [1..n] G)))"
  using assms by (simp add: corpo_col_def)

lemma corpo_col_ok: "corpo_ok corpo_col"
  unfolding corpo_ok_def
proof
  fix l
  let ?goal = "(\<forall>G. corpo_col G l = Inr G) \<or> (\<exists>e. \<forall>G. corpo_col G l = Inl e) \<or>
          (\<exists>n. \<forall>G. corpo_col G l = Inr (add_nodes_from [1..n] G)) \<or>
          (\<exists>u v. \<forall>G. corpo_col G l = Inr (add_edge u v G))"
  consider (c) "startswith (strip l) ''c''"
    | (p) "\<not> startswith (strip l) ''c''" "startswith (strip l) ''p''"
    | (e) "\<not> startswith (strip l) ''c''" "\<not> startswith (strip l) ''p''" "startswith (strip l) ''e''"
    | (o) "\<not> startswith (strip l) ''c''" "\<not> startswith (strip l) ''p''" "\<not> startswith (strip l) ''e''"
    by blast
  then show ?goal
  proof cases
    case c
    then have "\<forall>G. corpo_col G l = Inr G" by (simp add: corpo_col_def)
    then show ?thesis by blast
  next
    case p
    show ?thesis
    proof (cases "length (split (strip l)) \<le> 2")
      case True
      with p have "\<forall>G. corpo_col G l = Inl IndexError" by (simp add: corpo_col_p)
      then show ?thesis by blast
    next
      case False
      show ?thesis
      proof (cases "py_int (split (strip l) ! 2)")
        case None
        with p False have "\<forall>G. corpo_col G l = Inl ValueError" by (simp add: corpo_col_p)
        then show ?thesis by blast
      next
        case (Some n)
        with p False have "\<forall>G. corpo_col G l = Inr (add_nodes_from [1..n] G)"
          by (simp add: corpo_col_p)
        then show ?thesis by blast
      qed
    qed
  next
    case e
    show ?thesis
    proof (cases "\<exists>t a b. split (strip l) = [t, a, b]")
      case True
      then obtain t a b where sp: "split (strip l) = [t, a, b]" by blast
      show ?thesis
      proof (cases "py_int a")
        case None
        with e sp have "\<forall>G. corpo_col G l = Inl ValueError" by (simp add: corpo_col_e)
        then show ?thesis by blast
      next
        case a: (Some u)
        show ?thesis
        proof (cases "py_int b")
          case None
          with e sp a have "\<forall>G. corpo_col G l = Inl ValueError" by (simp add: corpo_col_e)
          then show ?thesis by blast
        next
          case (Some v)
          with e sp a have "\<forall>G. corpo_col G l = Inr (add_edge u v G)"
            by (simp add: corpo_col_e)
          then show ?thesis by blast
        qed
      qed
    next
      case False
      then have "(case split (strip l) of [t, u, v] \<Rightarrow> f u v | _ \<Rightarrow> Inl ValueError) = Inl ValueError" for f :: "string \<Rightarrow> string \<Rightarrow> error + graph"
        by (auto split: list.splits)
      with e have "\<forall>G. corpo_col G l = Inl ValueError"
        by (simp add: corpo_col_def)
      then show ?thesis by blast
    qed
  next
    case o
    then have "\<forall>G. corpo_col G l = Inr G" by (simp add: corpo_col_def)
    then show ?thesis by blast
  qed
qed

lemma corpo_dom_eq: "corpo_dom = corpo_col"
  by (intro ext) (simp add: corpo_dom_def corpo_col_def)

lemma corpo_dom_ok: "corpo_ok corpo_dom"
  by (simp add: corpo_dom_eq corpo_col_ok)

lemma corpo_mc_e:
  assumes "\<not> startswith (strip l) ''c''" "\<not> startswith (strip l) ''p''"
    "startswith (strip l) ''e''" "split (strip l) = [t, a, b]"
  shows "corpo_mc G l =
    (case py_int a of None \<Rightarrow> Inl ValueError
     | Some u \<Rightarrow> (case py_int b of None \<Rightarrow> Inl ValueError | Some v \<Rightarrow> Inr (add_edge u v G)))"
  using assms by (simp add: corpo_mc_def)

lemma corpo_mc_p:
  assumes "\<not> startswith (strip l) ''c''" "startswith (strip l) ''p''"
  shows "corpo_mc G l =
    (case split (strip l) of
       [t1, t2, n, t4] \<Rightarrow>
         (case py_int n of None \<Rightarrow> Inl ValueError | Some n' \<Rightarrow> Inr (add_nodes_from [1..n'] G))
     | _ \<Rightarrow> Inl ValueError)"
  using assms by (simp add: corpo_mc_def)

lemma corpo_mc_ok: "corpo_ok corpo_mc"
  unfolding corpo_ok_def
proof
  fix l
  let ?goal = "(\<forall>G. corpo_mc G l = Inr G) \<or> (\<exists>e. \<forall>G. corpo_mc G l = Inl e) \<or>
          (\<exists>n. \<forall>G. corpo_mc G l = Inr (add_nodes_from [1..n] G)) \<or>
          (\<exists>u v. \<forall>G. corpo_mc G l = Inr (add_edge u v G))"
  consider (c) "startswith (strip l) ''c''"
    | (p) "\<not> startswith (strip l) ''c''" "startswith (strip l) ''p''"
    | (e) "\<not> startswith (strip l) ''c''" "\<not> startswith (strip l) ''p''" "startswith (strip l) ''e''"
    | (o) "\<not> startswith (strip l) ''c''" "\<not> startswith (strip l) ''p''" "\<not> startswith (strip l) ''e''"
    by blast
  then show ?goal
  proof cases
    case c
    then have "\<forall>G. corpo_mc G l = Inr G" by (simp add: corpo_mc_def)
    then show ?thesis by blast
  next
    case p
    show ?thesis
    proof (cases "\<exists>t1 t2 n t4. split (strip l) = [t1, t2, n, t4]")
      case True
      then obtain t1 t2 n t4 where sp: "split (strip l) = [t1, t2, n, t4]" by blast
      show ?thesis
      proof (cases "py_int n")
        case None
        with p sp have "\<forall>G. corpo_mc G l = Inl ValueError" by (simp add: corpo_mc_p)
        then show ?thesis by blast
      next
        case (Some n')
        with p sp have "\<forall>G. corpo_mc G l = Inr (add_nodes_from [1..n'] G)"
          by (simp add: corpo_mc_p)
        then show ?thesis by blast
      qed
    next
      case False
      then have "(case split (strip l) of [t1, t2, n, t4] \<Rightarrow> f n | _ \<Rightarrow> Inl ValueError) = Inl ValueError"
        for f :: "string \<Rightarrow> error + graph"
        by (auto split: list.splits)
      with p have "\<forall>G. corpo_mc G l = Inl ValueError" by (simp add: corpo_mc_p)
      then show ?thesis by blast
    qed
  next
    case e
    show ?thesis
    proof (cases "\<exists>t a b. split (strip l) = [t, a, b]")
      case True
      then obtain t a b where sp: "split (strip l) = [t, a, b]" by blast
      show ?thesis
      proof (cases "py_int a")
        case None
        with e sp have "\<forall>G. corpo_mc G l = Inl ValueError" by (simp add: corpo_mc_e)
        then show ?thesis by blast
      next
        case a: (Some u)
        show ?thesis
        proof (cases "py_int b")
          case None
          with e sp a have "\<forall>G. corpo_mc G l = Inl ValueError" by (simp add: corpo_mc_e)
          then show ?thesis by blast
        next
          case (Some v)
          with e sp a have "\<forall>G. corpo_mc G l = Inr (add_edge u v G)"
            by (simp add: corpo_mc_e)
          then show ?thesis by blast
        qed
      qed
    next
      case False
      then have "(case split (strip l) of [t, u, v] \<Rightarrow> f u v | _ \<Rightarrow> Inl ValueError) = Inl ValueError" for f :: "string \<Rightarrow> string \<Rightarrow> error + graph"
        by (auto split: list.splits)
      with e have "\<forall>G. corpo_mc G l = Inl ValueError"
        by (simp add: corpo_mc_def)
      then show ?thesis by blast
    qed
  next
    case o
    then have "\<forall>G. corpo_mc G l = Inr G" by (simp add: corpo_mc_def)
    then show ?thesis by blast
  qed
qed

lemma for_linhas_append:
  "for_linhas corpo G (xs @ ys) =
     (case for_linhas corpo G xs of Inl e \<Rightarrow> Inl e | Inr G' \<Rightarrow> for_linhas corpo G' ys)"
  by (induction xs arbitrary: G) (simp_all split: sum.splits)

lemma corpo_ok_cases:
  assumes "corpo_ok corpo"
  obtains (skip) "\<And>G. corpo G l = Inr G"
  | (err) e where "\<And>G. corpo G l = Inl e"
  | (nodes) n where "\<And>G. corpo G l = Inr (add_nodes_from [1..n] G)"
  | (edge) u v where "\<And>G. corpo G l = Inr (add_edge u v G)"
  using assms unfolding corpo_ok_def by metis

lemma sub_graph_refl: "sub_graph G G"
  by (simp add: sub_graph_def)

lemma sub_graph_trans: "sub_graph G G' \<Longrightarrow> sub_graph G' G'' \<Longrightarrow> sub_graph G G''"
  unfolding sub_graph_def by blast

lemma adjacent_add_nodes_from: "adjacent (add_nodes_from ns G) a b \<longleftrightarrow> adjacent G a b"
  unfolding add_nodes_from_def
  by (induction ns arbitrary: G) (simp_all add: adjacent_add_node)

lemma sub_graph_add_nodes_from: "sub_graph G (add_nodes_from ns G)"
  by (simp add: sub_graph_def set_nodes_add_nodes_from adjacent_add_nodes_from)

lemma sub_graph_add_edge: "sub_graph G (add_edge u v G)"
  by (auto simp: sub_graph_def set_nodes_add_edge adjacent_add_edge)

lemma corpo_ok_step:
  assumes "corpo_ok corpo" "corpo G l = Inr G'"
  shows "sub_graph G G' \<and> (wf_graph G \<longrightarrow> wf_graph G')"
  using assms(1)
proof (cases rule: corpo_ok_cases [where l = l])
  case skip
  with assms(2) show ?thesis by (simp add: sub_graph_refl)
next
  case (err e)
  with assms(2) show ?thesis by simp
next
  case (nodes n)
  with assms(2) show ?thesis
    by (auto simp: sub_graph_add_nodes_from wf_graph_add_nodes_from)
next
  case (edge u v)
  with assms(2) show ?thesis
    by (auto simp: sub_graph_add_edge wf_graph_add_edge)
qed

lemma for_linhas_grows:
  assumes "corpo_ok corpo"
  shows "for_linhas corpo G ls = Inr G' \<Longrightarrow> sub_graph G G' \<and> (wf_graph G \<longrightarrow> wf_graph G')"
proof (induction ls arbitrary: G)
  case Nil
  then show ?case by (simp add: sub_graph_refl)
next
  case (Cons l ls)
  then obtain G1 where 1: "corpo G l = Inr G1" and 2: "for_linhas corpo G1 ls = Inr G'"
    by (auto split: sum.splits)
  from corpo_ok_step [OF assms 1] Cons.IH [OF 2] show ?case
    by (blast intro: sub_graph_trans)
qed

lemma add_node_known: "n \<in> set (nodes G) \<Longrightarrow> add_node n G = G"
  by (simp add: add_node_def)

lemma add_nodes_from_known: "set ns \<subseteq> set (nodes G) \<Longrightarrow> add_nodes_from ns G = G"
  unfolding add_nodes_from_def
  by (induction ns) (simp_all add: add_node_known)

lemma add_nbr_known:
  assumes "distinct (nodes G)" "adjacent G u v"
  shows "add_nbr u v G = G"
proof -
  have "(case x of (k, ns) \<Rightarrow> if k = u then (k, if v \<in> set ns then ns else ns @ [v]) else (k, ns)) = x"
    if x: "x \<in> set G" for x
  proof -
    obtain k ns where eq: "x = (k, ns)" by (cases x)
    show ?thesis
    proof (cases "k = u")
      case True
      from assms(1) x eq have "map_of G k = Some ns"
        by (simp add: nodes_def map_of_is_SomeI)
      with True assms(2) have "v \<in> set ns" by (simp add: adjacent_iff)
      with eq show ?thesis by simp
    next
      case False
      with eq show ?thesis by simp
    qed
  qed
  then show ?thesis unfolding add_nbr_def by (intro map_idI)
qed

lemma adjacent_node: "adjacent G u v \<Longrightarrow> u \<in> set (nodes G)"
  by (auto simp: adjacent_iff node_map_of)

lemma add_edge_known:
  assumes "distinct (nodes G)" "adjacent G u v" "adjacent G v u"
  shows "add_edge u v G = G"
  using assms by (simp add: add_edge_def add_node_known adjacent_node add_nbr_known)

lemma corpo_ok_absorb:
  assumes ok: "corpo_ok corpo" and step: "corpo G0 l = Inr G1" and sub: "sub_graph G1 G"
    and wf: "wf_graph G"
  shows "corpo G l = Inr G"
  using ok
proof (cases rule: corpo_ok_cases [where l = l])
  case skip
  then show ?thesis by simp
next
  case (err e)
  with step show ?thesis by simp
next
  case (nodes n)
  with step have "G1 = add_nodes_from [1..n] G0" by simp
  then have "set [1..n] \<subseteq> set (nodes G1)" by (simp add: set_nodes_add_nodes_from)
  with sub have "set [1..n] \<subseteq> set (nodes G)" unfolding sub_graph_def by blast
  with nodes show ?thesis by (simp add: add_nodes_from_known)
next
  case (edge u v)
  with step have "G1 = add_edge u v G0" by simp
  then have "adjacent G1 u v" "adjacent G1 v u" by (simp_all add: adjacent_add_edge)
  with sub have "adjacent G u v" "adjacent G v u" unfolding sub_graph_def by blast+
  with wf edge show ?thesis by (simp add: add_edge_known wf_graph_distinct)
qed

lemma for_linhas_repeat:
  assumes ok: "corpo_ok corpo" and wf: "wf_graph G"
  shows "for_linhas corpo G (l # ls2 @ l # ls3) = for_linhas corpo G (l # ls2 @ ls3)"
proof (cases "corpo G l")
  case (Inl e)
  then show ?thesis by simp
next
  case (Inr G1)
  from corpo_ok_step [OF ok Inr] wf have wf1: "wf_graph G1" by blast
  show ?thesis
  proof (cases "for_linhas corpo G1 ls2")
    case (Inl e)
    with Inr show ?thesis by (simp add: for_linhas_append)
  next
    case G2: (Inr G2)
    from for_linhas_grows [OF ok G2] wf1 have "sub_graph G1 G2" "wf_graph G2" by blast+
    from corpo_ok_absorb [OF ok Inr this] have "corpo G2 l = Inr G2" .
    with Inr G2 show ?thesis by (simp add: for_linhas_append)
  qed
qed

lemma carregar_repeat:
  assumes ok: "corpo_ok corpo"
  shows "for_linhas corpo [] (ls1 @ l # ls2 @ l # ls3) = for_linhas corpo [] (ls1 @ l # ls2 @ ls3)"
proof (cases "for_linhas corpo [] ls1")
  case (Inl e)
  then show ?thesis by (simp add: for_linhas_append)
next
  case (Inr G)
  from for_linhas_grows [OF ok Inr] have "wf_graph G" by (simp add: wf_graph_empty)
  from for_linhas_repeat [OF ok this] Inr show ?thesis
    by (simp add: for_linhas_append)
qed

lemma carregar_wf:
  assumes "corpo_ok corpo" "for_linhas corpo [] ls = Inr G"
  shows "wf_graph G"
  using for_linhas_grows [OF assms] by (simp add: wf_graph_empty)

section \<open>The edge list\<close>

lemma edges_from_unseen:
  "(a, b) \<in> set (edges_from seen G) \<Longrightarrow> b \<notin> set seen"
  by (induction seen G rule: edges_from.induct) auto

lemma edges_from_distinct:
  "distinct (map fst G) \<Longrightarrow> (\<forall>(k, ns) \<in> set G. distinct ns) \<Longrightarrow> distinct (edges_from seen G)"
proof (induction seen G rule: edges_from.induct)
  case (1 seen)
  then show ?case by simp
next
  case (2 seen n nbrs G)
  have d1: "distinct (map (\<lambda>nbr. (n, nbr)) (filter (\<lambda>nbr. nbr \<notin> set seen) nbrs))"
    using "2.prems"(2) by (simp add: distinct_map inj_on_def)
  have d2: "distinct (edges_from (n # seen) G)"
    using "2.IH" "2.prems" by simp
  have "a \<noteq> n" if "(a, b) \<in> set (edges_from (n # seen) G)" for a b
  proof -
    from edges_from_adj [OF that] have "a \<in> fst ` set G" by force
    with "2.prems"(1) show ?thesis by auto
  qed
  then have "set (map (\<lambda>nbr. (n, nbr)) (filter (\<lambda>nbr. nbr \<notin> set seen) nbrs)) \<inter>
      set (edges_from (n # seen) G) = {}"
    by auto
  with d1 d2 show ?case by simp
qed

lemma edges_from_one_way:
  "distinct (map fst G) \<Longrightarrow> (a, b) \<in> set (edges_from seen G) \<Longrightarrow> a \<noteq> b \<Longrightarrow>
   (b, a) \<notin> set (edges_from seen G)"
proof (induction seen G rule: edges_from.induct)
  case (1 seen)
  then show ?case by simp
next
  case (2 seen n nbrs G)
  let ?first = "map (\<lambda>nbr. (n, nbr)) (filter (\<lambda>nbr. nbr \<notin> set seen) nbrs)"
  let ?tail = "edges_from (n # seen) G"
  have tail_n: "y \<noteq> n" if "(x, y) \<in> set ?tail" for x y
    using edges_from_unseen [OF that] by simp
  from "2.prems"(2) have "(a, b) \<in> set ?first \<or> (a, b) \<in> set ?tail" by simp
  then show ?case
  proof
    assume "(a, b) \<in> set ?first"
    then have an: "a = n" by auto
    with "2.prems"(3) have "(b, a) \<notin> set ?first" by auto
    moreover from an tail_n have "(b, a) \<notin> set ?tail" by blast
    ultimately show ?thesis by simp
  next
    assume t: "(a, b) \<in> set ?tail"
    with tail_n have "b \<noteq> n" by blast
    then have "(b, a) \<notin> set ?first" by auto
    moreover from "2.IH" "2.prems"(1,3) t have "(b, a) \<notin> set ?tail" by simp
    ultimately show ?thesis by simp
  qed
qed

lemma edges_from_complete:
  "distinct (map fst G) \<Longrightarrow> fst ` set G \<inter> set seen = {} \<Longrightarrow>
   (\<forall>a ns b. (a, ns) \<in> set G \<and> b \<in> set ns \<and> b \<notin> set seen
      \<longrightarrow> (\<exists>ms. (b, ms) \<in> set G \<and> a \<in> set ms)) \<Longrightarrow>
   (a, ns) \<in> set G \<Longrightarrow> b \<in> set ns \<Longrightarrow> b \<notin> set seen \<Longrightarrow>
   (a, b) \<in> set (edges_from seen G) \<or> (b, a) \<in> set (edges_from seen G)"
proof (induction seen G arbitrary: a ns b rule: edges_from.induct)
  case (1 seen)
  then show ?case by simp
next
  case (2 seen n nbrs G)
  have key: "ms = nbrs" if "(n, ms) \<in> set ((n, nbrs) # G)" for ms
    using that "2.prems"(1) by (auto simp: image_iff)
  show ?case
  proof (cases "a = n")
    case True
    with "2.prems"(4) key have "ns = nbrs" by blast
    with True "2.prems"(5,6) show ?thesis by simp
  next
    case False
    with "2.prems"(4) have aG: "(a, ns) \<in> set G" by simp
    show ?thesis
    proof (cases "b = n")
      case True
      from "2.prems"(3) "2.prems"(4,5,6) obtain ms where
        "(b, ms) \<in> set ((n, nbrs) # G)" "a \<in> set ms" by blast
      with True key have "a \<in> set nbrs" by blast
      moreover from aG "2.prems"(2) have "a \<notin> set seen" by force
      ultimately show ?thesis using True by simp
    next
      case bn: False
      have sym': "\<forall>a ns b. (a, ns) \<in> set G \<and> b \<in> set ns \<and> b \<notin> set (n # seen)
          \<longrightarrow> (\<exists>ms. (b, ms) \<in> set G \<and> a \<in> set ms)"
      proof (intro allI impI, elim conjE)
        fix a' ns' b'
        assume h: "(a', ns') \<in> set G" "b' \<in> set ns'" "b' \<notin> set (n # seen)"
        with "2.prems"(3) obtain ms where "(b', ms) \<in> set ((n, nbrs) # G)" "a' \<in> set ms"
          by (metis list.set_intros(2) set_subset_Cons subsetD)
        with h(3) show "\<exists>ms. (b', ms) \<in> set G \<and> a' \<in> set ms" by auto
      qed
      have dis: "fst ` set G \<inter> set (n # seen) = {}"
        using "2.prems"(1,2) by auto
      have dG: "distinct (map fst G)" using "2.prems"(1) by simp
      have bs: "b \<notin> set (n # seen)" using "2.prems"(6) bn by simp
      from "2.IH" [OF dG dis sym' aG "2.prems"(5) bs]
      show ?thesis by auto
    qed
  qed
qed

lemma wf_graph_entries:
  assumes "wf_graph G"
  shows "distinct (map fst G)" "\<forall>(k, ns) \<in> set G. distinct ns"
    "(a, ns) \<in> set G \<longleftrightarrow> map_of G a = Some ns"
proof -
  show d: "distinct (map fst G)" using assms by (simp add: wf_graph_def nodes_def)
  show "\<forall>(k, ns) \<in> set G. distinct ns"
    using assms by (auto simp: wf_graph_def list_all_iff)
  show "(a, ns) \<in> set G \<longleftrightarrow> map_of G a = Some ns"
    using d by (auto intro: map_of_is_SomeI dest: map_of_SomeD)
qed

lemma edges_distinct: "wf_graph G \<Longrightarrow> distinct (edges G)"
  unfolding edges_def by (intro edges_from_distinct wf_graph_entries)

lemma edges_one_way:
  "wf_graph G \<Longrightarrow> (a, b) \<in> set (edges G) \<Longrightarrow> a \<noteq> b \<Longrightarrow> (b, a) \<notin> set (edges G)"
  unfolding edges_def by (rule edges_from_one_way) (simp_all add: wf_graph_entries)

lemma edges_adjacent:
  assumes wf: "wf_graph G"
  shows "adjacent G a b \<longleftrightarrow> (a, b) \<in> set (edges G) \<or> (b, a) \<in> set (edges G)"
proof
  assume "adjacent G a b"
  then obtain ns where ns: "(a, ns) \<in> set G" "b \<in> set ns"
    by (auto simp: adjacent_iff wf_graph_entries(3) [OF wf])
  have sym: "\<forall>a ns b. (a, ns) \<in> set G \<and> b \<in> set ns \<and> b \<notin> set []
      \<longrightarrow> (\<exists>ms. (b, ms) \<in> set G \<and> a \<in> set ms)"
    using wf_graph_sym [OF wf] by (simp add: wf_graph_entries(3) [OF wf])
  show "(a, b) \<in> set (edges G) \<or> (b, a) \<in> set (edges G)"
    unfolding edges_def
    by (rule edges_from_complete [OF wf_graph_entries(1) [OF wf] _ sym ns]) simp_all
next
  assume "(a, b) \<in> set (edges G) \<or> (b, a) \<in> set (edges G)"
  then show "adjacent G a b"
  proof
    assume "(a, b) \<in> set (edges G)"
    from edges_adj [OF wf this] show ?thesis by (simp add: adjacent_iff)
  next
    assume "(b, a) \<in> set (edges G)"
    from edges_adj [OF wf this] have "adjacent G b a" by (simp add: adjacent_iff)
    with wf show ?thesis unfolding wf_graph_adjacent_iff by blast
  qed
qed

lemma tamanho_corte_card:
  assumes wf: "wf_graph G"
  shows "tamanho_corte G A B =
    card {{u, v} | u v. adjacent G u v \<and> ((u \<in> A \<and> v \<in> B) \<or> (u \<in> B \<and> v \<in> A))}"
proof -
  let ?P = "\<lambda>(u, v). (u \<in> A \<and> v \<in> B) \<or> (u \<in> B \<and> v \<in> A)"
  let ?L = "filter ?P (edges G)"
  let ?f = "\<lambda>(u :: int, v :: int). {u, v}"
  have dL: "distinct ?L" using edges_distinct [OF wf] by simp
  have inj: "inj_on ?f (set ?L)"
  proof (rule inj_onI)
    fix x y assume x: "x \<in> set ?L" and y: "y \<in> set ?L" and eq: "?f x = ?f y"
    obtain a b where xe: "x = (a, b)" by (cases x)
    obtain c d where ye: "y = (c, d)" by (cases y)
    from eq xe ye have "{a, b} = {c, d}" by simp
    then have "(a = c \<and> b = d) \<or> (a = d \<and> b = c)" by (auto simp: doubleton_eq_iff)
    then show "x = y"
    proof
      assume "a = c \<and> b = d" with xe ye show ?thesis by simp
    next
      assume sw: "a = d \<and> b = c"
      show ?thesis
      proof (cases "a = b")
        case True with sw xe ye show ?thesis by simp
      next
        case False
        from x xe have "(a, b) \<in> set (edges G)" by simp
        from edges_one_way [OF wf this False] y ye sw show ?thesis by simp
      qed
    qed
  qed
  have img: "?f ` set ?L =
      {{u, v} | u v. adjacent G u v \<and> ((u \<in> A \<and> v \<in> B) \<or> (u \<in> B \<and> v \<in> A))}"
    (is "?lhs = ?rhs")
  proof (intro set_eqI iffI)
    fix e assume "e \<in> ?lhs"
    then obtain u v where uv: "(u, v) \<in> set (edges G)" "?P (u, v)" "e = {u, v}" by auto
    from uv(1) have "adjacent G u v" by (simp add: edges_adjacent [OF wf])
    with uv show "e \<in> ?rhs" by auto
  next
    fix e assume "e \<in> ?rhs"
    then obtain u v where uv: "adjacent G u v" "(u \<in> A \<and> v \<in> B) \<or> (u \<in> B \<and> v \<in> A)" "e = {u, v}"
      by auto
    from uv(1) have "(u, v) \<in> set (edges G) \<or> (v, u) \<in> set (edges G)"
      by (simp add: edges_adjacent [OF wf])
    then show "e \<in> ?lhs"
    proof
      assume "(u, v) \<in> set (edges G)"
      with uv(2) have "(u, v) \<in> set ?L" by simp
      then have "?f (u, v) \<in> ?lhs" by (rule imageI)
      with uv(3) show ?thesis by simp
    next
      assume "(v, u) \<in> set (edges G)"
      with uv(2) have "(v, u) \<in> set ?L" by auto
      then have "?f (v, u) \<in> ?lhs" by (rule imageI)
      with uv(3) show ?thesis by (simp add: insert_commute)
    qed
  qed
  have "tamanho_corte G A B = length ?L" by (simp add: tamanho_corte_def)
  also have "\<dots> = card (set ?L)" using dL by (rule distinct_card [symmetric])
  also have "\<dots> = card (?f ` set ?L)" using inj by (simp add: card_image)
  also note img
  finally show ?thesis .
qed

section \<open>The loaders: the problem line\<close>

lemmas load_simps = carregar_grafo_col_def carregar_grafo_dom_def carregar_grafo_mc_def
  corpo_col_def corpo_dom_def corpo_mc_def strip_def split_def startswith_def isspace_def
  py_int_def py_nat_def digit_val_def add_edge_def add_nbr_def add_node_def add_nodes_from_def
  nodes_def upto.simps

lemma startswith_p_not_c: "startswith s ''p'' \<Longrightarrow> \<not> startswith s ''c''"
  by (cases s) (simp_all add: startswith_def)

lemma startswith_e_not_cp:
  "startswith s ''e'' \<Longrightarrow> \<not> startswith s ''c'' \<and> \<not> startswith s ''p''"
  by (cases s) (simp_all add: startswith_def)

lemma edges_from_isolated: "edges_from seen (G @ [(n, [])]) = edges_from seen G"
  by (induction seen G rule: edges_from.induct) simp_all

lemma edges_add_node: "edges (add_node n G) = edges G"
  by (simp add: edges_def add_node_def edges_from_isolated)

lemma edges_add_nodes_from: "edges (add_nodes_from ns G) = edges G"
  unfolding add_nodes_from_def
  by (induction ns arbitrary: G) (simp_all add: edges_add_node)

lemma p_line_col:
  assumes p: "startswith (strip l) ''p''"
    and len: "2 < length (split (strip l))"
    and n: "py_int (split (strip l) ! 2) = Some n"
  shows "corpo_col G l = Inr (add_nodes_from [1..n] G)"
  using assms startswith_p_not_c [OF p] by (simp add: corpo_col_p)

lemma p_line_mc:
  assumes p: "startswith (strip l) ''p''"
    and len: "2 < length (split (strip l))"
    and n: "py_int (split (strip l) ! 2) = Some n"
  shows "corpo_mc G l =
      (if length (split (strip l)) = 4 then Inr (add_nodes_from [1..n] G) else Inl ValueError)"
proof (cases "length (split (strip l)) = 4")
  case True
  then obtain t1 t2 t3 t4 where sp: "split (strip l) = [t1, t2, t3, t4]"
    by (auto simp: length_Suc_conv numeral_eq_Suc)
  with n have "py_int t3 = Some n" by simp
  with sp True show ?thesis
    using startswith_p_not_c [OF p] p by (simp add: corpo_mc_p)
next
  case False
  then have "\<nexists>t1 t2 t3 t4. split (strip l) = [t1, t2, t3, t4]" by auto
  then have "(case split (strip l) of [t1, t2, n, t4] \<Rightarrow> f n | _ \<Rightarrow> Inl ValueError) = Inl ValueError"
    for f :: "string \<Rightarrow> error + graph"
    by (auto split: list.splits)
  with False show ?thesis
    using startswith_p_not_c [OF p] p by (simp add: corpo_mc_p)
qed

section \<open>Welsh-Powell: the vertex ordering\<close>

lemma map_err_Inr:
  "map_err f xs = Inr ys \<Longrightarrow> list_all2 (\<lambda>x y. f x = Inr y) xs ys"
proof (induction xs arbitrary: ys)
  case Nil
  then show ?case by simp
next
  case (Cons x xs)
  then show ?case by (auto split: sum.splits)
qed

lemma filter_map_snd_key:
  assumes "\<forall>p \<in> set ps. key (snd p) = Inr (fst p)"
  shows "filter (\<lambda>v. key v = Inr d) (map snd ps) = map snd (filter (\<lambda>p. fst p = d) ps)"
  using assms by (induction ps) auto

lemma sorted_key_reverse_props:
  assumes r: "sorted_key_reverse key xs = Inr vo"
  shows "mset vo = mset xs"
    and "\<forall>i j. i < j \<and> j < length vo \<longrightarrow>
           (\<exists>di dj. key (vo ! i) = Inr di \<and> key (vo ! j) = Inr dj \<and> dj \<le> di)"
    and "filter (\<lambda>v. key v = Inr d) vo = filter (\<lambda>v. key v = Inr d) xs"
proof -
  from r obtain ks where ks: "map_err key xs = Inr ks"
    and vo: "vo = map snd (rev (sort_key fst (rev (zip ks xs))))"
    by (auto simp: sorted_key_reverse_def split: sum.splits)
  from map_err_Inr [OF ks] have l2: "list_all2 (\<lambda>x y. key x = Inr y) xs ks" .
  then have len: "length ks = length xs" by (simp add: list_all2_lengthD)
  let ?zs = "zip ks xs"
  let ?L = "sort_key fst (rev ?zs)"
  have zs: "\<forall>p \<in> set ?zs. key (snd p) = Inr (fst p)"
  proof
    fix p assume "p \<in> set ?zs"
    then obtain i where i: "i < length ?zs" "p = ?zs ! i" by (auto simp: in_set_conv_nth)
    with len have "i < length xs" by simp
    with l2 have "key (xs ! i) = Inr (ks ! i)" by (rule list_all2_nthD)
    with i len show "key (snd p) = Inr (fst p)" by simp
  qed
  have setL: "set (rev ?L) = set ?zs" by simp
  show "mset vo = mset xs"
  proof -
    have "mset vo = mset (map snd ?zs)" unfolding vo by simp
    also have "\<dots> = mset xs" using len by simp
    finally show ?thesis .
  qed
  show "\<forall>i j. i < j \<and> j < length vo \<longrightarrow>
           (\<exists>di dj. key (vo ! i) = Inr di \<and> key (vo ! j) = Inr dj \<and> dj \<le> di)"
  proof (intro allI impI, elim conjE)
    fix i j assume ij: "i < j" "j < length vo"
    define L where "L = sort_key fst (rev (zip ks xs))"
    have lenL: "length L = length vo" unfolding vo L_def by simp
    have s: "sorted (map fst L)" unfolding L_def by simp
    from ij lenL have i: "i < length L" and j: "j < length L" by simp_all
    have ri: "rev L ! i = L ! (length L - Suc i)" using i by (rule rev_nth)
    have rj: "rev L ! j = L ! (length L - Suc j)" using j by (rule rev_nth)
    have a: "length L - Suc j \<le> length L - Suc i" using ij by arith
    have b: "length L - Suc i < length (map fst L)" using i by simp
    from sorted_nth_mono [OF s a b]
    have "fst (L ! (length L - Suc j)) \<le> fst (L ! (length L - Suc i))"
      using i j by simp
    with ri rj have le: "fst (rev L ! j) \<le> fst (rev L ! i)" by simp
    have "L ! (length L - Suc i) \<in> set L" "L ! (length L - Suc j) \<in> set L"
      using i j by (simp_all del: set_sort)
    with ri rj have "rev L ! i \<in> set L" "rev L ! j \<in> set L" by simp_all
    then have "rev L ! i \<in> set ?zs" "rev L ! j \<in> set ?zs"
      unfolding L_def by simp_all
    with zs have "key (snd (rev L ! i)) = Inr (fst (rev L ! i))"
      "key (snd (rev L ! j)) = Inr (fst (rev L ! j))" by blast+
    moreover have "vo ! i = snd (rev L ! i)" "vo ! j = snd (rev L ! j)"
      using i j unfolding vo L_def by simp_all
    ultimately show "\<exists>di dj. key (vo ! i) = Inr di \<and> key (vo ! j) = Inr dj \<and> dj \<le> di"
      using le by auto
  qed
  show "filter (\<lambda>v. key v = Inr d) vo = filter (\<lambda>v. key v = Inr d) xs"
  proof -
    have zr: "\<forall>p \<in> set (rev ?L). key (snd p) = Inr (fst p)" using zs setL by blast
    have "filter (\<lambda>v. key v = Inr d) vo = map snd (filter (\<lambda>p. fst p = d) (rev ?L))"
      unfolding vo by (rule filter_map_snd_key [OF zr])
    also have "filter (\<lambda>p. fst p = d) (rev ?L) = rev (filter (\<lambda>p. fst p = d) ?L)"
      by (simp add: rev_filter)
    also have "filter (\<lambda>p. fst p = d) ?L = filter (\<lambda>p. fst p = d) (rev ?zs)"
      by (rule sort_key_stable)
    also have "rev (filter (\<lambda>p. fst p = d) (rev ?zs)) = filter (\<lambda>p. fst p = d) ?zs"
      by (simp add: rev_filter)
    also have "map snd (filter (\<lambda>p. fst p = d) ?zs) = filter (\<lambda>v. key v = Inr d) (map snd ?zs)"
      by (rule filter_map_snd_key [OF zs, symmetric])
    also have "map snd ?zs = xs" using len by simp
    finally show ?thesis .
  qed
qed

section \<open>The loaders: repeated lines and the vertex set\<close>

lemma nodes_Nil: "nodes [] = []"
  by (simp add: nodes_def)

lemma corpo_ok_nodes:
  assumes ok: "corpo_ok corpo" and step: "corpo G l = Inr G'"
  shows "set (nodes G') =
    set (nodes G) \<union> (case corpo [] l of Inl e \<Rightarrow> {} | Inr G1 \<Rightarrow> set (nodes G1))"
  using ok
proof (cases rule: corpo_ok_cases [where l = l])
  case skip
  with step show ?thesis by (simp add: nodes_Nil)
next
  case (err e)
  with step show ?thesis by simp
next
  case (nodes n)
  with step show ?thesis by (auto simp: set_nodes_add_nodes_from nodes_Nil)
next
  case (edge u v)
  with step show ?thesis by (auto simp: set_nodes_add_edge nodes_Nil)
qed

lemma for_linhas_nodes:
  assumes ok: "corpo_ok corpo"
  shows "for_linhas corpo G ls = Inr G' \<Longrightarrow>
    set (nodes G') = set (nodes G) \<union>
      (\<Union>l \<in> set ls. case corpo [] l of Inl e \<Rightarrow> {} | Inr G1 \<Rightarrow> set (nodes G1))"
proof (induction ls arbitrary: G)
  case Nil
  then show ?case by simp
next
  case (Cons l ls)
  then obtain G1 where 1: "corpo G l = Inr G1" and 2: "for_linhas corpo G1 ls = Inr G'"
    by (auto split: sum.splits)
  from corpo_ok_nodes [OF ok 1] Cons.IH [OF 2] show ?case by auto
qed

lemma e_line_col:
  assumes "startswith (strip l) ''e''" "split (strip l) = [t, a, b]"
    "py_int a = Some u" "py_int b = Some v"
  shows "corpo_col G l = Inr (add_edge u v G)"
  using assms startswith_e_not_cp [OF assms(1)] by (simp add: corpo_col_e)

lemma e_line_mc:
  assumes "startswith (strip l) ''e''" "split (strip l) = [t, a, b]"
    "py_int a = Some u" "py_int b = Some v"
  shows "corpo_mc G l = Inr (add_edge u v G)"
  using assms startswith_e_not_cp [OF assms(1)] by (simp add: corpo_mc_e)

lemma carregar_nodes:
  assumes ok: "corpo_ok corpo" and r: "for_linhas corpo [] f = Inr G"
  shows "set (nodes G) =
    (\<Union>l \<in> set f. case for_linhas corpo [] [l] of Inl e \<Rightarrow> {} | Inr G1 \<Rightarrow> set (nodes G1))"
proof -
  have "for_linhas corpo [] [l] = corpo [] l" for l
    by (simp split: sum.splits)
  with for_linhas_nodes [OF ok r] show ?thesis by (simp add: nodes_Nil)
qed

lemma add_edge_twice:
  assumes "wf_graph G"
  shows "add_edge u v (add_edge u v G) = add_edge u v G"
    and "add_edge v u (add_edge u v G) = add_edge u v G"
proof -
  have d: "distinct (nodes (add_edge u v G))"
    using wf_graph_add_edge [OF assms] by (rule wf_graph_distinct)
  have a: "adjacent (add_edge u v G) u v" "adjacent (add_edge u v G) v u"
    by (simp_all add: adjacent_add_edge)
  show "add_edge u v (add_edge u v G) = add_edge u v G"
    using d a by (rule add_edge_known)
  show "add_edge v u (add_edge u v G) = add_edge u v G"
    using d a(2,1) by (rule add_edge_known)
qed

section \<open>The travelling salesman program: evaluation rules\<close>

lemmas tsp_simps = executar_def ler_tsp_def strip_def split_def startswith_def isspace_def upper_def
  py_int_def py_nat_def digit_val_def linha_coord_def construir_matriz_distancias_def euclid_dist_def
  nearest_neighbor_tour_def nn_loop.simps dist_at_def imprimir_def py_min_def floats_on_a_line_def

section \<open>The distance matrix\<close>





section \<open>The coordinate loader\<close>

lemma ler_loop_distinct:
  "distinct (map fst coords) \<Longrightarrow> distinct (map fst (ler_loop F in_section coords f))"
proof (induction f arbitrary: in_section coords)
  case Nil
  then show ?case by simp
next
  case (Cons l f)
  then show ?case
    by (auto simp: Let_def distinct_update split: option.splits)
qed

lemma ler_tsp_distinct: "distinct (map fst (ler_tsp F f))"
  by (simp add: ler_tsp_def ler_loop_distinct)

section \<open>The claims\<close>

text \<open>
  Claim C1, for the edges that join two different vertices. On every graph the colouring
  engine returns a colouring whose keys are the vertices; every vertex has a positive
  colour, and the two ends of every edge \<open>(u, v)\<close> with \<open>u \<noteq> v\<close> have different colours.
\<close>

theorem welsh_powell_proper:
  assumes wf: "wf_graph G"
  shows "\<exists>cor. welsh_powell G = Some (Inr cor) \<and> fst ` set cor = set (nodes G) \<and>
    (\<forall>v \<in> set (nodes G). \<exists>c. map_of cor v = Some c \<and> 0 < c) \<and>
    (\<forall>(u, v) \<in> set (edges G). u \<noteq> v \<longrightarrow> map_of cor u \<noteq> map_of cor v)"
  using assms by (rule welsh_powell_returns)

theorem welsh_powell_proper_witness:
  "wf_graph [(1, [2, 4]), (2, [1, 3]), (3, [2, 4]), (4, [3, 1])] \<and>
   welsh_powell [(1, [2, 4]), (2, [1, 3]), (3, [2, 4]), (4, [3, 1])] =
     Some (Inr [(1, 1), (2, 2), (3, 1), (4, 2)])"
proof -
  have wf: "wf_graph [(1, [2, 4]), (2, [1, 3]), (3, [2, 4]), (4, [3, 1])]"
    by (simp add: wf_graph_def nodes_def)
  have "welsh_powell [(1, [2, 4]), (2, [1, 3]), (3, [2, 4]), (4, [3, 1])] =
     Some (Inr [(1, 1), (2, 2), (3, 1), (4, 2)])"
    using welsh_powell_proper [OF wf]
    by (simp add: welsh_powell_def sorted_key_reverse_def degree_def nodes_def wp_loop.simps
        neighbors_def)
  with wf show ?thesis by simp
qed

text \<open>
  Claim C1 as it is written also covers a self-loop, which the loader accepts: the graph
  with the single edge \<open>(1, 1)\<close> gets the colouring \<open>{1: 1}\<close>, and both ends of that edge
  have colour 1.
\<close>

theorem welsh_powell_self_loop_counterexample:
  "wf_graph (add_edge 1 1 []) \<and> (1, 1) \<in> set (edges (add_edge 1 1 [])) \<and>
   welsh_powell (add_edge 1 1 []) = Some (Inr [(1, 1)]) \<and>
   \<not> (map_of [(1 :: int, 1 :: nat)] 1 \<noteq> map_of [(1, 1)] 1)"
  by (simp add: add_edge_def add_nbr_def add_node_def wf_graph_def edges_def
      welsh_powell_def sorted_key_reverse_def degree_def nodes_def wp_loop.simps neighbors_def)

text \<open>
  Claim C5. On every graph the dominating-set engine returns a list \<open>S\<close> that is in
  ascending order without repetition, holds vertices only, and covers the graph: every
  vertex is in \<open>S\<close> or is a neighbour of a member of \<open>S\<close>.
\<close>

theorem dominating_set_covers:
  assumes wf: "wf_graph G"
  shows "\<exists>S. conjunto_dominante_aproximado G = Some (Inr S) \<and> sorted S \<and> distinct S \<and>
    set S \<subseteq> set (nodes G) \<and>
    (\<forall>v \<in> set (nodes G).
       v \<in> set S \<or> (\<exists>u \<in> set S. \<exists>ns. neighbors G u = Inr ns \<and> v \<in> set ns))"
  using assms by (rule conjunto_dominante_returns)

theorem dominating_set_covers_witness:
  "wf_graph [(1, [2, 4]), (2, [1, 3]), (3, [2, 4]), (4, [3, 1])] \<and>
   conjunto_dominante_aproximado [(1, [2, 4]), (2, [1, 3]), (3, [2, 4]), (4, [3, 1])] =
     Some (Inr [1, 2])"
proof -
  have wf: "wf_graph [(1, [2, 4]), (2, [1, 3]), (3, [2, 4]), (4, [3, 1])]"
    by (simp add: wf_graph_def nodes_def)
  have "conjunto_dominante_aproximado [(1, [2, 4]), (2, [1, 3]), (3, [2, 4]), (4, [3, 1])] =
     Some (Inr [1, 2])"
    using dominating_set_covers [OF wf]
    by (simp add: conjunto_dominante_aproximado_def nodes_def dom_loop.simps neighbors_def
        precisa_inserir_def marcar_def)
  with wf show ?thesis by simp
qed

text \<open>
  Claim C9. On every graph the max-cut engine returns, and its sets \<open>A\<close> and \<open>B\<close> are
  disjoint and cover the vertex set. The pass meets every vertex once: when it reaches \<open>v\<close>
  (after the vertices \<open>pre\<close>, before the vertices \<open>post\<close>), \<open>v\<close> is in neither set, the
  step puts it into exactly one of them, and the rest of the pass only adds to both sets,
  so \<open>v\<close> stays where it was put.
\<close>

theorem maxcut_partition:
  assumes "wf_graph G"
  shows "\<exists>A B. sahni_gonzalez_maxcut G = Inr (A, B) \<and> A \<inter> B = {} \<and> A \<union> B = set (nodes G) \<and>
    (\<forall>pre v post. sort (nodes G) = pre @ v # post \<longrightarrow>
       v \<notin> set pre \<and> v \<notin> set post \<and>
       (\<exists>A1 B1 A2 B2. sg_loop G pre ({}, {}) = Inr (A1, B1) \<and> v \<notin> A1 \<union> B1 \<and>
          sg_loop G [v] (A1, B1) = Inr (A2, B2) \<and>
          ((A2 = insert v A1 \<and> B2 = B1) \<or> (A2 = A1 \<and> B2 = insert v B1)) \<and>
          sg_loop G post (A2, B2) = Inr (A, B) \<and> A2 \<subseteq> A \<and> B2 \<subseteq> B))"
  using assms by (rule sg_pass_partition)

theorem maxcut_partition_witness:
  "wf_graph [(1, [2, 4]), (2, [1, 3]), (3, [2, 4]), (4, [3, 1])] \<and>
   sahni_gonzalez_maxcut [(1, [2, 4]), (2, [1, 3]), (3, [2, 4]), (4, [3, 1])] = Inr ({1, 3}, {2, 4})"
proof -
  have wf: "wf_graph [(1, [2, 4]), (2, [1, 3]), (3, [2, 4]), (4, [3, 1])]"
    by (simp add: wf_graph_def nodes_def)
  have "sahni_gonzalez_maxcut [(1, [2, 4]), (2, [1, 3]), (3, [2, 4]), (4, [3, 1])] = Inr ({1, 3}, {2, 4})"
    using maxcut_partition [OF wf]
    by (auto simp add: sahni_gonzalez_maxcut_def nodes_def neighbors_def)
  with wf show ?thesis by simp
qed

text \<open>
  Claim C7, with the max-cut loader set apart. A \<open>p\<close> line whose third token is the
  integer \<open>n\<close> makes the colouring loader and the dominating-set loader add the vertices
  \<open>1, \<dots>, n\<close> to the graph (no edge changes), whatever follows the third token; the max-cut
  loader does the same when the line has exactly four tokens and raises \<^verbatim>\<open>ValueError\<close>
  when it has three or more than four. Nothing but the third token is looked at, so the
  declared number of edges is never compared with the \<open>e\<close> lines.
\<close>

theorem p_line_loaders:
  assumes p: "startswith (strip l) ''p''"
    and len: "2 < length (split (strip l))"
    and n: "py_int (split (strip l) ! 2) = Some n"
  shows "corpo_col G l = Inr (add_nodes_from [1..n] G) \<and>
    corpo_dom G l = Inr (add_nodes_from [1..n] G) \<and>
    corpo_mc G l =
      (if length (split (strip l)) = 4 then Inr (add_nodes_from [1..n] G) else Inl ValueError) \<and>
    set (nodes (add_nodes_from [1..n] G)) = set (nodes G) \<union> {1..n} \<and>
    edges (add_nodes_from [1..n] G) = edges G"
  using p_line_col [OF assms] p_line_mc [OF assms]
  by (simp add: corpo_dom_eq set_nodes_add_nodes_from edges_add_nodes_from)

theorem p_line_loaders_witness:
  "startswith (strip ''p edge 3 7'') ''p'' \<and> 2 < length (split (strip ''p edge 3 7'')) \<and>
   py_int (split (strip ''p edge 3 7'') ! 2) = Some 3 \<and>
   carregar_grafo_col [''p edge 3 7'', ''e 1 2''] = Inr [(1, [2]), (2, [1]), (3, [])] \<and>
   carregar_grafo_dom [''p edge 3 7'', ''e 1 2''] = Inr [(1, [2]), (2, [1]), (3, [])] \<and>
   carregar_grafo_mc [''p edge 3 7'', ''e 1 2''] = Inr [(1, [2]), (2, [1]), (3, [])]"
proof -
  have h: "startswith (strip ''p edge 3 7'') ''p''" "2 < length (split (strip ''p edge 3 7''))"
    "py_int (split (strip ''p edge 3 7'') ! 2) = Some 3"
    by (simp_all add: load_simps)
  have e: "corpo_col G ''e 1 2'' = Inr (add_edge 1 2 G)" "corpo_dom G ''e 1 2'' = Inr (add_edge 1 2 G)"
    "corpo_mc G ''e 1 2'' = Inr (add_edge 1 2 G)" for G
    by (simp_all add: corpo_col_def corpo_dom_def corpo_mc_def strip_def split_def startswith_def
        isspace_def py_int_def py_nat_def digit_val_def)
  have g: "add_edge 1 2 (add_nodes_from [1..3] []) = [(1, [2]), (2, [1]), (3, [])]"
    by (simp add: add_edge_def add_nbr_def add_node_def add_nodes_from_def nodes_def upto.simps)
  have l: "length (split (strip ''p edge 3 7'')) = 4" by (simp add: load_simps)
  from p_line_loaders [OF h, of "[]"] e g l h show ?thesis
    by (simp add: carregar_grafo_col_def carregar_grafo_dom_def carregar_grafo_mc_def)
qed

text \<open>
  Claim C7 as it is written promises success of all three loaders whatever the number of
  tokens after the third. The max-cut loader refuses the three-token line \<^verbatim>\<open>p edge 3\<close> and
  the five-token line \<^verbatim>\<open>p edge 3 2 1\<close>, which the colouring loader accepts.
\<close>

theorem p_line_max_cut_counterexample:
  "py_int (split (strip ''p edge 3'') ! 2) = Some 3 \<and>
   carregar_grafo_col [''p edge 3''] = Inr [(1, []), (2, []), (3, [])] \<and>
   carregar_grafo_mc [''p edge 3''] = Inl ValueError \<and>
   py_int (split (strip ''p edge 3 2 1'') ! 2) = Some 3 \<and>
   carregar_grafo_col [''p edge 3 2 1''] = Inr [(1, []), (2, []), (3, [])] \<and>
   carregar_grafo_mc [''p edge 3 2 1''] = Inl ValueError"
  by (simp add: load_simps)

text \<open>
  Claim C6, with ties in the enumeration order of the graph. The ordering the colouring
  engine starts from exists for every graph and is a rearrangement of the vertices;
  degrees never increase along it; vertices of equal degree keep the order in which
  \<^verbatim>\<open>G.nodes()\<close> lists them, which is the order in which the loader first met them, and
  that is ascending vertex id whenever the enumeration itself is ascending. The colouring
  is the value of a function of the graph, so the same graph gives the same colouring.
\<close>

theorem vertices_ordenados_order:
  "\<exists>vo. sorted_key_reverse (degree G) (nodes G) = Inr vo \<and>
     welsh_powell G = wp_loop G vo (map (\<lambda>v. (v, 0)) (nodes G)) 1 \<and>
     mset vo = mset (nodes G) \<and>
     (\<forall>i j. i < j \<and> j < length vo \<longrightarrow>
        (\<exists>di dj. degree G (vo ! i) = Inr di \<and> degree G (vo ! j) = Inr dj \<and> dj \<le> di)) \<and>
     (\<forall>d. filter (\<lambda>v. degree G v = Inr d) vo = filter (\<lambda>v. degree G v = Inr d) (nodes G)) \<and>
     (sorted (nodes G) \<longrightarrow> (\<forall>d. sorted (filter (\<lambda>v. degree G v = Inr d) vo)))"
proof -
  from vertices_ordenados_Inr [of G] obtain vo where
    vo: "sorted_key_reverse (degree G) (nodes G) = Inr vo" by blast
  have wp: "welsh_powell G = wp_loop G vo (map (\<lambda>v. (v, 0)) (nodes G)) 1"
    using vo by (simp add: welsh_powell_def)
  note props = sorted_key_reverse_props [OF vo]
  have ties: "sorted (nodes G) \<longrightarrow> (\<forall>d. sorted (filter (\<lambda>v. degree G v = Inr d) vo))"
    by (simp add: props(3) sorted_wrt_filter)
  from vo wp props ties show ?thesis by blast
qed

theorem vertices_ordenados_order_witness:
  "sorted (nodes [(1, [2]), (2, [1, 3]), (3, [2])]) \<and>
   sorted_key_reverse (degree [(1, [2]), (2, [1, 3]), (3, [2])]) (nodes [(1, [2]), (2, [1, 3]), (3, [2])])
     = Inr [2, 1, 3] \<and>
   filter (\<lambda>v. degree [(1, [2]), (2, [1, 3]), (3, [2])] v = Inr 1) [2, 1, 3] = [1, 3] \<and>
   welsh_powell [(1, [2]), (2, [1, 3]), (3, [2])] = Some (Inr [(1, 2), (2, 1), (3, 2)])"
  using vertices_ordenados_order [of "[(1, [2]), (2, [1, 3]), (3, [2])]"]
  by (simp add: sorted_key_reverse_def degree_def nodes_def welsh_powell_def wp_loop.simps
      neighbors_def)

text \<open>
  Claim C6 as it is written has ties broken in ascending vertex id. The file with the lines
  \<^verbatim>\<open>p edge 2 1\<close> and \<^verbatim>\<open>e 4 3\<close> gives the enumeration 1, 2, 4, 3; the vertices 4 and 3 both
  have degree 1, and the ordering puts 4 before 3.
\<close>

theorem vertices_ordenados_tie_counterexample:
  "carregar_grafo_col [''p edge 2 1'', ''e 4 3''] = Inr [(1, []), (2, []), (4, [3]), (3, [4])] \<and>
   degree [(1, []), (2, []), (4, [3]), (3, [4])] 4 = Inr 1 \<and>
   degree [(1, []), (2, []), (4, [3]), (3, [4])] 3 = Inr 1 \<and>
   sorted_key_reverse (degree [(1, []), (2, []), (4, [3]), (3, [4])])
     (nodes [(1, []), (2, []), (4, [3]), (3, [4])]) = Inr [4, 3, 1, 2]"
  by (simp add: carregar_grafo_col_def corpo_col_def strip_def split_def startswith_def isspace_def
      py_int_def py_nat_def digit_val_def add_edge_def add_nbr_def add_node_def add_nodes_from_def
      nodes_def upto.simps sorted_key_reverse_def degree_def)

text \<open>
  Claim C3, with the graph of \<^verbatim>\<open>networkx\<close> in place of an edge multiset. Every loader
  accepts a line that it has already read, and the second copy changes nothing: the file
  with the copy and the file without it load to the same result. The same holds for an
  edge given again in either direction. The edge list of a loaded graph holds no pair
  twice, and the max-cut count is the number of unordered pairs of adjacent vertices that
  the cut separates, a pair counting once however often its \<open>e\<close> line was repeated.
\<close>

theorem duplicate_edges_stored_once:
  "carregar_grafo_col (ls1 @ l # ls2 @ l # ls3) = carregar_grafo_col (ls1 @ l # ls2 @ ls3) \<and>
   carregar_grafo_dom (ls1 @ l # ls2 @ l # ls3) = carregar_grafo_dom (ls1 @ l # ls2 @ ls3) \<and>
   carregar_grafo_mc (ls1 @ l # ls2 @ l # ls3) = carregar_grafo_mc (ls1 @ l # ls2 @ ls3) \<and>
   (wf_graph G \<longrightarrow> add_edge u v (add_edge u v G) = add_edge u v G \<and>
      add_edge v u (add_edge u v G) = add_edge u v G) \<and>
   (carregar_grafo_mc f = Inr G' \<longrightarrow> distinct (edges G') \<and>
      tamanho_corte G' A B =
        card {{a, b} | a b. adjacent G' a b \<and> ((a \<in> A \<and> b \<in> B) \<or> (a \<in> B \<and> b \<in> A))})"
proof -
  have 1: "carregar_grafo_col (ls1 @ l # ls2 @ l # ls3) = carregar_grafo_col (ls1 @ l # ls2 @ ls3)"
    unfolding carregar_grafo_col_def by (rule carregar_repeat [OF corpo_col_ok])
  have 2: "carregar_grafo_dom (ls1 @ l # ls2 @ l # ls3) = carregar_grafo_dom (ls1 @ l # ls2 @ ls3)"
    unfolding carregar_grafo_dom_def by (rule carregar_repeat [OF corpo_dom_ok])
  have 3: "carregar_grafo_mc (ls1 @ l # ls2 @ l # ls3) = carregar_grafo_mc (ls1 @ l # ls2 @ ls3)"
    unfolding carregar_grafo_mc_def by (rule carregar_repeat [OF corpo_mc_ok])
  have 4: "wf_graph G \<longrightarrow> add_edge u v (add_edge u v G) = add_edge u v G \<and>
      add_edge v u (add_edge u v G) = add_edge u v G"
    by (simp add: add_edge_twice)
  have 5: "carregar_grafo_mc f = Inr G' \<longrightarrow> distinct (edges G') \<and>
      tamanho_corte G' A B =
        card {{a, b} | a b. adjacent G' a b \<and> ((a \<in> A \<and> b \<in> B) \<or> (a \<in> B \<and> b \<in> A))}"
  proof
    assume "carregar_grafo_mc f = Inr G'"
    then have "wf_graph G'"
      unfolding carregar_grafo_mc_def by (rule carregar_wf [OF corpo_mc_ok])
    then show "distinct (edges G') \<and>
      tamanho_corte G' A B =
        card {{a, b} | a b. adjacent G' a b \<and> ((a \<in> A \<and> b \<in> B) \<or> (a \<in> B \<and> b \<in> A))}"
      by (simp add: edges_distinct tamanho_corte_card)
  qed
  from 1 2 3 4 5 show ?thesis by blast
qed

theorem duplicate_edges_stored_once_witness:
  "wf_graph [(1, []), (2, [])] \<and>
   carregar_grafo_mc [''p edge 2 3'', ''e 1 2'', ''e 2 2'', ''e 1 2''] = Inr [(1, [2]), (2, [1, 2])] \<and>
   carregar_grafo_mc [''p edge 2 3'', ''e 1 2'', ''e 2 2''] = Inr [(1, [2]), (2, [1, 2])] \<and>
   edges [(1, [2]), (2, [1, 2])] = [(1, 2), (2, 2)] \<and>
   tamanho_corte [(1, [2]), (2, [1, 2])] {1} {2} = 1"
proof -
  have wf: "wf_graph [(1, []), (2, [])]" by (simp add: wf_graph_def nodes_def)
  have l: "carregar_grafo_mc [''p edge 2 3'', ''e 1 2'', ''e 2 2''] = Inr [(1, [2]), (2, [1, 2])]"
    by (simp add: load_simps)
  from duplicate_edges_stored_once [of "[''p edge 2 3'']" "''e 1 2''" "[''e 2 2'']" "[]"
      "[(1, []), (2, [])]" 1 2 "[''p edge 2 3'', ''e 1 2'', ''e 2 2'']" "[(1, [2]), (2, [1, 2])]" "{1}" "{2}"]
    wf l
  show ?thesis by (simp add: edges_def tamanho_corte_def)
qed

text \<open>
  Claim C3 as it is written has every repeated \<open>e\<close> line add a member to the edge set and
  be counted again. The file with \<^verbatim>\<open>e 1 2\<close> twice loads to a graph with the single edge
  \<open>(1, 2)\<close>, and the cut that separates 1 from 2 has size 1, not 2.
\<close>

theorem duplicate_edges_counterexample:
  "carregar_grafo_mc [''p edge 2 2'', ''e 1 2'', ''e 1 2''] = Inr [(1, [2]), (2, [1])] \<and>
   edges [(1, [2]), (2, [1])] = [(1, 2)] \<and>
   sahni_gonzalez_maxcut [(1, [2]), (2, [1])] = Inr ({1}, {2}) \<and>
   tamanho_corte [(1, [2]), (2, [1])] {1} {2} = 1"
  by (simp add: load_simps edges_def sahni_gonzalez_maxcut_def neighbors_def tamanho_corte_def)

text \<open>
  Claim C10, with coverage in place of membership for the dominating set. The two
  endpoints of every \<open>e\<close> line of a file are vertices of the loaded graph, inside the
  declared range or not; the vertex set is the union of what the lines contribute one by
  one (\<open>1, \<dots>, n\<close> for a \<open>p\<close> line, the two endpoints for an \<open>e\<close> line). The colouring gives
  both endpoints a positive colour, the cut puts each of them on one of its sides, and the
  dominating set contains each of them or one of its neighbours.
\<close>

theorem edge_endpoints_are_vertices:
  assumes l: "l \<in> set f"
    and e: "startswith (strip l) ''e''" "split (strip l) = [t, a, b]"
      "py_int a = Some u" "py_int b = Some v"
  shows
    "(carregar_grafo_col f = Inr G \<longrightarrow>
        carregar_grafo_col [l] = Inr (add_edge u v []) \<and>
        set (nodes G) = (\<Union>l \<in> set f. case carregar_grafo_col [l] of
                                     Inl e \<Rightarrow> {} | Inr G1 \<Rightarrow> set (nodes G1)) \<and>
        u \<in> set (nodes G) \<and> v \<in> set (nodes G) \<and>
        (\<exists>cor cu cv. welsh_powell G = Some (Inr cor) \<and>
           map_of cor u = Some cu \<and> 0 < cu \<and> map_of cor v = Some cv \<and> 0 < cv)) \<and>
     (carregar_grafo_mc f = Inr G \<longrightarrow>
        carregar_grafo_mc [l] = Inr (add_edge u v []) \<and>
        set (nodes G) = (\<Union>l \<in> set f. case carregar_grafo_mc [l] of
                                     Inl e \<Rightarrow> {} | Inr G1 \<Rightarrow> set (nodes G1)) \<and>
        u \<in> set (nodes G) \<and> v \<in> set (nodes G) \<and>
        (\<exists>A B. sahni_gonzalez_maxcut G = Inr (A, B) \<and> A \<inter> B = {} \<and>
           u \<in> A \<union> B \<and> v \<in> A \<union> B)) \<and>
     (carregar_grafo_dom f = Inr G \<longrightarrow>
        carregar_grafo_dom [l] = Inr (add_edge u v []) \<and>
        set (nodes G) = (\<Union>l \<in> set f. case carregar_grafo_dom [l] of
                                     Inl e \<Rightarrow> {} | Inr G1 \<Rightarrow> set (nodes G1)) \<and>
        u \<in> set (nodes G) \<and> v \<in> set (nodes G) \<and>
        (\<exists>S. conjunto_dominante_aproximado G = Some (Inr S) \<and>
           (u \<in> set S \<or> (\<exists>w \<in> set S. adjacent G w u)) \<and>
           (v \<in> set S \<or> (\<exists>w \<in> set S. adjacent G w v))))"
proof -
  have col1: "carregar_grafo_col [l] = Inr (add_edge u v [])"
    using e_line_col [OF e, of "[]"] by (simp add: carregar_grafo_col_def)
  have mc1: "carregar_grafo_mc [l] = Inr (add_edge u v [])"
    using e_line_mc [OF e, of "[]"] by (simp add: carregar_grafo_mc_def)
  have dom1: "carregar_grafo_dom [l] = Inr (add_edge u v [])"
    using col1 by (simp add: carregar_grafo_dom_def carregar_grafo_col_def corpo_dom_eq)
  have uv: "set (nodes (add_edge u v [])) = {u, v}"
    by (simp add: set_nodes_add_edge nodes_Nil insert_commute)
  have col: "carregar_grafo_col [l] = Inr (add_edge u v []) \<and>
        set (nodes G) = (\<Union>l \<in> set f. case carregar_grafo_col [l] of
                                     Inl e \<Rightarrow> {} | Inr G1 \<Rightarrow> set (nodes G1)) \<and>
        u \<in> set (nodes G) \<and> v \<in> set (nodes G) \<and>
        (\<exists>cor cu cv. welsh_powell G = Some (Inr cor) \<and>
           map_of cor u = Some cu \<and> 0 < cu \<and> map_of cor v = Some cv \<and> 0 < cv)"
    if r: "carregar_grafo_col f = Inr G"
  proof -
    from r have r': "for_linhas corpo_col [] f = Inr G" by (simp add: carregar_grafo_col_def)
    have ns: "set (nodes G) = (\<Union>l \<in> set f. case carregar_grafo_col [l] of
                                     Inl e \<Rightarrow> {} | Inr G1 \<Rightarrow> set (nodes G1))"
      unfolding carregar_grafo_col_def by (rule carregar_nodes [OF corpo_col_ok r'])
    with l col1 uv have mem: "u \<in> set (nodes G)" "v \<in> set (nodes G)" by force+
    from carregar_wf [OF corpo_col_ok r'] have "wf_graph G" .
    from welsh_powell_returns [OF this] obtain cor where
      "welsh_powell G = Some (Inr cor)"
      "\<forall>v \<in> set (nodes G). \<exists>c. map_of cor v = Some c \<and> 0 < c" by blast
    with mem have "\<exists>cor cu cv. welsh_powell G = Some (Inr cor) \<and>
           map_of cor u = Some cu \<and> 0 < cu \<and> map_of cor v = Some cv \<and> 0 < cv"
      by (metis (no_types, lifting))
    with col1 ns mem show ?thesis by blast
  qed
  have mc: "carregar_grafo_mc [l] = Inr (add_edge u v []) \<and>
        set (nodes G) = (\<Union>l \<in> set f. case carregar_grafo_mc [l] of
                                     Inl e \<Rightarrow> {} | Inr G1 \<Rightarrow> set (nodes G1)) \<and>
        u \<in> set (nodes G) \<and> v \<in> set (nodes G) \<and>
        (\<exists>A B. sahni_gonzalez_maxcut G = Inr (A, B) \<and> A \<inter> B = {} \<and>
           u \<in> A \<union> B \<and> v \<in> A \<union> B)"
    if r: "carregar_grafo_mc f = Inr G"
  proof -
    from r have r': "for_linhas corpo_mc [] f = Inr G" by (simp add: carregar_grafo_mc_def)
    have ns: "set (nodes G) = (\<Union>l \<in> set f. case carregar_grafo_mc [l] of
                                     Inl e \<Rightarrow> {} | Inr G1 \<Rightarrow> set (nodes G1))"
      unfolding carregar_grafo_mc_def by (rule carregar_nodes [OF corpo_mc_ok r'])
    with l mc1 uv have mem: "u \<in> set (nodes G)" "v \<in> set (nodes G)" by force+
    from carregar_wf [OF corpo_mc_ok r'] have "wf_graph G" .
    from sg_pass_partition [OF this] obtain A B where
      "sahni_gonzalez_maxcut G = Inr (A, B)" "A \<inter> B = {}" "A \<union> B = set (nodes G)" by blast
    with mem have "\<exists>A B. sahni_gonzalez_maxcut G = Inr (A, B) \<and> A \<inter> B = {} \<and>
           u \<in> A \<union> B \<and> v \<in> A \<union> B" by blast
    with mc1 ns mem show ?thesis by blast
  qed
  have dom: "carregar_grafo_dom [l] = Inr (add_edge u v []) \<and>
        set (nodes G) = (\<Union>l \<in> set f. case carregar_grafo_dom [l] of
                                     Inl e \<Rightarrow> {} | Inr G1 \<Rightarrow> set (nodes G1)) \<and>
        u \<in> set (nodes G) \<and> v \<in> set (nodes G) \<and>
        (\<exists>S. conjunto_dominante_aproximado G = Some (Inr S) \<and>
           (u \<in> set S \<or> (\<exists>w \<in> set S. adjacent G w u)) \<and>
           (v \<in> set S \<or> (\<exists>w \<in> set S. adjacent G w v)))"
    if r: "carregar_grafo_dom f = Inr G"
  proof -
    from r have r': "for_linhas corpo_dom [] f = Inr G" by (simp add: carregar_grafo_dom_def)
    have ns: "set (nodes G) = (\<Union>l \<in> set f. case carregar_grafo_dom [l] of
                                     Inl e \<Rightarrow> {} | Inr G1 \<Rightarrow> set (nodes G1))"
      unfolding carregar_grafo_dom_def by (rule carregar_nodes [OF corpo_dom_ok r'])
    with l dom1 uv have mem: "u \<in> set (nodes G)" "v \<in> set (nodes G)" by force+
    from carregar_wf [OF corpo_dom_ok r'] have "wf_graph G" .
    from conjunto_dominante_returns [OF this] obtain S where
      S: "conjunto_dominante_aproximado G = Some (Inr S)"
      and cov: "\<forall>v \<in> set (nodes G).
         v \<in> set S \<or> (\<exists>u \<in> set S. \<exists>ns. neighbors G u = Inr ns \<and> v \<in> set ns)"
      by blast
    have "x \<in> set S \<or> (\<exists>w \<in> set S. adjacent G w x)" if "x \<in> set (nodes G)" for x
      using cov that by (auto simp: adjacent_iff neighbors_Inr)
    with mem S have "\<exists>S. conjunto_dominante_aproximado G = Some (Inr S) \<and>
           (u \<in> set S \<or> (\<exists>w \<in> set S. adjacent G w u)) \<and>
           (v \<in> set S \<or> (\<exists>w \<in> set S. adjacent G w v))" by blast
    with dom1 ns mem show ?thesis by blast
  qed
  from col mc dom show ?thesis by blast
qed

theorem edge_endpoints_are_vertices_witness:
  "''e 1 5'' \<in> set [''p edge 1 1'', ''e 1 5''] \<and> startswith (strip ''e 1 5'') ''e'' \<and>
   split (strip ''e 1 5'') = [''e'', ''1'', ''5''] \<and> py_int ''1'' = Some 1 \<and> py_int ''5'' = Some 5 \<and>
   carregar_grafo_col [''p edge 1 1'', ''e 1 5''] = Inr [(1, [5]), (5, [1])] \<and>
   carregar_grafo_mc [''p edge 1 1'', ''e 1 5''] = Inr [(1, [5]), (5, [1])] \<and>
   carregar_grafo_dom [''p edge 1 1'', ''e 1 5''] = Inr [(1, [5]), (5, [1])] \<and>
   welsh_powell [(1, [5]), (5, [1])] = Some (Inr [(1, 1), (5, 2)]) \<and>
   sahni_gonzalez_maxcut [(1, [5]), (5, [1])] = Inr ({1}, {5}) \<and>
   conjunto_dominante_aproximado [(1, [5]), (5, [1])] = Some (Inr [1])"
proof -
  have h: "''e 1 5'' \<in> set [''p edge 1 1'', ''e 1 5'']" "startswith (strip ''e 1 5'') ''e''"
    "split (strip ''e 1 5'') = [''e'', ''1'', ''5'']" "py_int ''1'' = Some 1" "py_int ''5'' = Some 5"
    by (simp_all add: load_simps)
  have ld: "carregar_grafo_col [''p edge 1 1'', ''e 1 5''] = Inr [(1, [5]), (5, [1])]"
    "carregar_grafo_mc [''p edge 1 1'', ''e 1 5''] = Inr [(1, [5]), (5, [1])]"
    "carregar_grafo_dom [''p edge 1 1'', ''e 1 5''] = Inr [(1, [5]), (5, [1])]"
    by (simp_all add: load_simps)
  have wp: "welsh_powell [(1, [5]), (5, [1])] = Some (Inr [(1, 1), (5, 2)])"
    by (simp add: welsh_powell_def sorted_key_reverse_def degree_def nodes_def wp_loop.simps
        neighbors_def)
  have sg: "sahni_gonzalez_maxcut [(1, [5]), (5, [1])] = Inr ({1}, {5})"
    by (simp add: sahni_gonzalez_maxcut_def nodes_def neighbors_def)
  have cd: "conjunto_dominante_aproximado [(1, [5]), (5, [1])] = Some (Inr [1])"
    by (simp add: conjunto_dominante_aproximado_def nodes_def dom_loop.simps neighbors_def
        precisa_inserir_def marcar_def)
  from edge_endpoints_are_vertices [OF h, of "[(1, [5]), (5, [1])]"] h ld wp sg cd
  show ?thesis by simp
qed

text \<open>
  Claim C10 as it is written has every out-of-range endpoint appear in the returned
  dominating set. The file with the lines \<^verbatim>\<open>p edge 1 1\<close> and \<^verbatim>\<open>e 1 5\<close> has the endpoint 5
  outside the declared range; it is a vertex of the loaded graph, and the dominating set
  returned is \<open>[1]\<close>, which covers 5 without containing it.
\<close>

theorem out_of_range_endpoint_counterexample:
  "carregar_grafo_dom [''p edge 1 1'', ''e 1 5''] = Inr [(1, [5]), (5, [1])] \<and>
   5 \<in> set (nodes [(1, [5]), (5, [1])]) \<and>
   conjunto_dominante_aproximado [(1, [5]), (5, [1])] = Some (Inr [1]) \<and>
   5 \<notin> set [1 :: int]"
  by (simp add: load_simps conjunto_dominante_aproximado_def dom_loop.simps neighbors_def
      precisa_inserir_def marcar_def)

text \<open>
  Claim C2, for runs without \<^verbatim>\<open>--try-all\<close> and with the check where the program has it. Given
  a \<^verbatim>\<open>--start\<close> value that is not a key of the parsed coordinates, the run always ends,
  prints nothing on standard output and builds no tour. If no coordinates were read it
  exits with status 1 and the message about the coordinates. Otherwise it first builds the
  distance matrix: if that raises, the run ends with that exception, and only if the
  matrix is built does it exit with status 1 and the message naming the start vertex.
\<close>

theorem unknown_start_vertex:
  assumes "arg_start a = Some k" "\<not> arg_try_all a" "k \<notin> set (map fst (ler_tsp F f))"
  shows "executar F f a =
    Some ([],
      if ler_tsp F f = [] then SysExit 1 ErroCoordenadas
      else (case construir_matriz_distancias F (ler_tsp F f) (arg_round a) of
              Inl e \<Rightarrow> Traceback e
            | Inr dist' \<Rightarrow> SysExit 1 (ErroVerticeInicial k)))"
  using assms by (simp add: executar_def Let_def split: sum.splits)

theorem unknown_start_vertex_witness:
  "arg_start \<lparr>arg_start = Some 7, arg_try_all = False, arg_round = False\<rparr> = Some 7 \<and>
   \<not> arg_try_all \<lparr>arg_start = Some 7, arg_try_all = False, arg_round = False\<rparr> \<and>
   ler_tsp floats_on_a_line [''NODE_COORD_SECTION'', ''1 0 0'', ''2 10 0'', ''EOF''] =
     [(1, 0, 0), (2, enat 10, 0)] \<and>
   7 \<notin> set (map fst (ler_tsp floats_on_a_line [''NODE_COORD_SECTION'', ''1 0 0'', ''2 10 0'', ''EOF''])) \<and>
   executar floats_on_a_line [''NODE_COORD_SECTION'', ''1 0 0'', ''2 10 0'', ''EOF'']
     \<lparr>arg_start = Some 7, arg_try_all = False, arg_round = False\<rparr> =
     Some ([], SysExit 1 (ErroVerticeInicial 7))"
proof -
  let ?a = "\<lparr>arg_start = Some 7, arg_try_all = False, arg_round = False\<rparr>"
  let ?f = "[''NODE_COORD_SECTION'', ''1 0 0'', ''2 10 0'', ''EOF'']"
  have c: "ler_tsp floats_on_a_line ?f = [(1, 0, 0), (2, enat 10, 0)]"
    by (simp add: ler_tsp_def strip_def split_def startswith_def isspace_def upper_def
        py_int_def py_nat_def digit_val_def linha_coord_def floats_on_a_line_def zero_enat_def)
  have h: "arg_start ?a = Some 7" "\<not> arg_try_all ?a"
    "7 \<notin> set (map fst (ler_tsp floats_on_a_line ?f))"
    by (simp_all add: c)
  have m: "construir_matriz_distancias floats_on_a_line [(1, 0, 0), (2, enat 10, 0)] False =
      Inr [(1, [(1, 0), (2, enat 10)]), (2, [(1, enat 10), (2, 0)])]"
    by (simp add: construir_matriz_distancias_def euclid_dist_def floats_on_a_line_def
        zero_enat_def)
  from unknown_start_vertex [OF h] c m h show ?thesis by simp
qed

text \<open>
  Claim C2 as it is written covers every run with such a \<^verbatim>\<open>--start\<close> value and puts the
  failure before the distance matrix. With \<^verbatim>\<open>--try-all\<close> the value is not looked at: the
  run prints a tour and ends normally. Without it the matrix comes first: on a file with
  an infinite coordinate and with \<^verbatim>\<open>--round\<close>, building the matrix raises
  \<^verbatim>\<open>OverflowError\<close> and the message about the start vertex is never written.
\<close>

theorem unknown_start_vertex_counterexample:
  "7 \<notin> set (map fst (ler_tsp floats_on_a_line [''NODE_COORD_SECTION'', ''1 0 0'', ''EOF''])) \<and>
   executar floats_on_a_line [''NODE_COORD_SECTION'', ''1 0 0'', ''EOF'']
     \<lparr>arg_start = Some 7, arg_try_all = True, arg_round = False\<rparr> =
     Some ([CustoTotal 0, TourTitulo, TourOrdem [1]], Normal) \<and>
   7 \<notin> set (map fst (ler_tsp floats_on_a_line [''NODE_COORD_SECTION'', ''1 0 0'', ''2 inf 0''])) \<and>
   executar floats_on_a_line [''NODE_COORD_SECTION'', ''1 0 0'', ''2 inf 0'']
     \<lparr>arg_start = Some 7, arg_try_all = False, arg_round = True\<rparr> =
     Some ([], Traceback OverflowError)"
  by (simp add: tsp_simps zero_enat_def)




end
